theory Spec2Isabelle
  imports Main "HOL-Library.Word" "HOL-Library.Monad_Syntax"
begin

unbundle bit_operations_syntax

section \<open>Machine types and constants\<close>

text \<open>
  \<^verbatim>\<open>uint8_t\<close> and \<open>uint32_t\<close> of the C source are 8-bit and 32-bit words.
  \<^verbatim>\<open>size_t\<close> values are natural numbers: the only arithmetic on a size before it is
  validated is the rounding-up to a block boundary, and its result is used only after the
  size has been checked to be at most 64, so wrap-around can never influence a result.
\<close>

type_synonym byte = "8 word"
type_synonym word32 = "32 word"

text \<open>From \<^verbatim>\<open>uaes.h\<close>.\<close>

definition uAES_MAX_INPUT_SIZE :: nat where
  "uAES_MAX_INPUT_SIZE = 64"

definition uAES_BLOCK_SIZE :: nat where
  "uAES_BLOCK_SIZE = 16"

text \<open>From \<^verbatim>\<open>uaes.c\<close>.\<close>

definition uAES128_KSCHD_SIZE :: nat where
  "uAES128_KSCHD_SIZE = 44"

definition uAES192_KSCHD_SIZE :: nat where
  "uAES192_KSCHD_SIZE = 52"

definition uAES256_KSCHD_SIZE :: nat where
  "uAES256_KSCHD_SIZE = 60"

definition uAES_MAX_KSCHD_SIZE :: nat where
  "uAES_MAX_KSCHD_SIZE = 60"

text \<open>The enumeration \<^verbatim>\<open>crypto_t\<close>: the tag is kept as its numeric value, since the
  entry points compare it with the range marker \<^verbatim>\<open>uAESRGE\<close>.\<close>

definition uAES128 :: nat where
  "uAES128 = 0"

definition uAES192 :: nat where
  "uAES192 = 1"

definition uAES256 :: nat where
  "uAES256 = 2"

definition uAESRGE :: nat where
  "uAESRGE = 3"

section \<open>Block primitives of \<^verbatim>\<open>ops.h\<close>\<close>

text \<open>
  The file \<^verbatim>\<open>ops.c\<close> that implements the round primitives, the key expansion and the
  alignment macros is not part of the sources at hand; \<^verbatim>\<open>uaes.c\<close> only calls them.
  They are written here from sections 4.1 to 4.4 of the specification.  The block-size
  argument \<open>Nb\<close> that the C calls pass along is always 4; it is kept where the
  specification uses it (the schedule index of \<open>add_round_key\<close>).
\<close>

text \<open>Modelled from the spec: the forward S-box table of \<^verbatim>\<open>ops.c\<close> (FIPS-197, 5.1.1).\<close>

definition SBox :: "byte list" where
  "SBox =
  [
   0x63, 0x7c, 0x77, 0x7b, 0xf2, 0x6b, 0x6f, 0xc5, 0x30, 0x01, 0x67, 0x2b, 0xfe, 0xd7, 0xab, 0x76,
   0xca, 0x82, 0xc9, 0x7d, 0xfa, 0x59, 0x47, 0xf0, 0xad, 0xd4, 0xa2, 0xaf, 0x9c, 0xa4, 0x72, 0xc0,
   0xb7, 0xfd, 0x93, 0x26, 0x36, 0x3f, 0xf7, 0xcc, 0x34, 0xa5, 0xe5, 0xf1, 0x71, 0xd8, 0x31, 0x15,
   0x04, 0xc7, 0x23, 0xc3, 0x18, 0x96, 0x05, 0x9a, 0x07, 0x12, 0x80, 0xe2, 0xeb, 0x27, 0xb2, 0x75,
   0x09, 0x83, 0x2c, 0x1a, 0x1b, 0x6e, 0x5a, 0xa0, 0x52, 0x3b, 0xd6, 0xb3, 0x29, 0xe3, 0x2f, 0x84,
   0x53, 0xd1, 0x00, 0xed, 0x20, 0xfc, 0xb1, 0x5b, 0x6a, 0xcb, 0xbe, 0x39, 0x4a, 0x4c, 0x58, 0xcf,
   0xd0, 0xef, 0xaa, 0xfb, 0x43, 0x4d, 0x33, 0x85, 0x45, 0xf9, 0x02, 0x7f, 0x50, 0x3c, 0x9f, 0xa8,
   0x51, 0xa3, 0x40, 0x8f, 0x92, 0x9d, 0x38, 0xf5, 0xbc, 0xb6, 0xda, 0x21, 0x10, 0xff, 0xf3, 0xd2,
   0xcd, 0x0c, 0x13, 0xec, 0x5f, 0x97, 0x44, 0x17, 0xc4, 0xa7, 0x7e, 0x3d, 0x64, 0x5d, 0x19, 0x73,
   0x60, 0x81, 0x4f, 0xdc, 0x22, 0x2a, 0x90, 0x88, 0x46, 0xee, 0xb8, 0x14, 0xde, 0x5e, 0x0b, 0xdb,
   0xe0, 0x32, 0x3a, 0x0a, 0x49, 0x06, 0x24, 0x5c, 0xc2, 0xd3, 0xac, 0x62, 0x91, 0x95, 0xe4, 0x79,
   0xe7, 0xc8, 0x37, 0x6d, 0x8d, 0xd5, 0x4e, 0xa9, 0x6c, 0x56, 0xf4, 0xea, 0x65, 0x7a, 0xae, 0x08,
   0xba, 0x78, 0x25, 0x2e, 0x1c, 0xa6, 0xb4, 0xc6, 0xe8, 0xdd, 0x74, 0x1f, 0x4b, 0xbd, 0x8b, 0x8a,
   0x70, 0x3e, 0xb5, 0x66, 0x48, 0x03, 0xf6, 0x0e, 0x61, 0x35, 0x57, 0xb9, 0x86, 0xc1, 0x1d, 0x9e,
   0xe1, 0xf8, 0x98, 0x11, 0x69, 0xd9, 0x8e, 0x94, 0x9b, 0x1e, 0x87, 0xe9, 0xce, 0x55, 0x28, 0xdf,
   0x8c, 0xa1, 0x89, 0x0d, 0xbf, 0xe6, 0x42, 0x68, 0x41, 0x99, 0x2d, 0x0f, 0xb0, 0x54, 0xbb, 0x16]"

text \<open>Modelled from the spec: the inverse S-box table of \<^verbatim>\<open>ops.c\<close>.\<close>

definition InvSBox :: "byte list" where
  "InvSBox =
  [
   0x52, 0x09, 0x6a, 0xd5, 0x30, 0x36, 0xa5, 0x38, 0xbf, 0x40, 0xa3, 0x9e, 0x81, 0xf3, 0xd7, 0xfb,
   0x7c, 0xe3, 0x39, 0x82, 0x9b, 0x2f, 0xff, 0x87, 0x34, 0x8e, 0x43, 0x44, 0xc4, 0xde, 0xe9, 0xcb,
   0x54, 0x7b, 0x94, 0x32, 0xa6, 0xc2, 0x23, 0x3d, 0xee, 0x4c, 0x95, 0x0b, 0x42, 0xfa, 0xc3, 0x4e,
   0x08, 0x2e, 0xa1, 0x66, 0x28, 0xd9, 0x24, 0xb2, 0x76, 0x5b, 0xa2, 0x49, 0x6d, 0x8b, 0xd1, 0x25,
   0x72, 0xf8, 0xf6, 0x64, 0x86, 0x68, 0x98, 0x16, 0xd4, 0xa4, 0x5c, 0xcc, 0x5d, 0x65, 0xb6, 0x92,
   0x6c, 0x70, 0x48, 0x50, 0xfd, 0xed, 0xb9, 0xda, 0x5e, 0x15, 0x46, 0x57, 0xa7, 0x8d, 0x9d, 0x84,
   0x90, 0xd8, 0xab, 0x00, 0x8c, 0xbc, 0xd3, 0x0a, 0xf7, 0xe4, 0x58, 0x05, 0xb8, 0xb3, 0x45, 0x06,
   0xd0, 0x2c, 0x1e, 0x8f, 0xca, 0x3f, 0x0f, 0x02, 0xc1, 0xaf, 0xbd, 0x03, 0x01, 0x13, 0x8a, 0x6b,
   0x3a, 0x91, 0x11, 0x41, 0x4f, 0x67, 0xdc, 0xea, 0x97, 0xf2, 0xcf, 0xce, 0xf0, 0xb4, 0xe6, 0x73,
   0x96, 0xac, 0x74, 0x22, 0xe7, 0xad, 0x35, 0x85, 0xe2, 0xf9, 0x37, 0xe8, 0x1c, 0x75, 0xdf, 0x6e,
   0x47, 0xf1, 0x1a, 0x71, 0x1d, 0x29, 0xc5, 0x89, 0x6f, 0xb7, 0x62, 0x0e, 0xaa, 0x18, 0xbe, 0x1b,
   0xfc, 0x56, 0x3e, 0x4b, 0xc6, 0xd2, 0x79, 0x20, 0x9a, 0xdb, 0xc0, 0xfe, 0x78, 0xcd, 0x5a, 0xf4,
   0x1f, 0xdd, 0xa8, 0x33, 0x88, 0x07, 0xc7, 0x31, 0xb1, 0x12, 0x10, 0x59, 0x27, 0x80, 0xec, 0x5f,
   0x60, 0x51, 0x7f, 0xa9, 0x19, 0xb5, 0x4a, 0x0d, 0x2d, 0xe5, 0x7a, 0x9f, 0x93, 0xc9, 0x9c, 0xef,
   0xa0, 0xe0, 0x3b, 0x4d, 0xae, 0x2a, 0xf5, 0xb0, 0xc8, 0xeb, 0xbb, 0x3c, 0x83, 0x53, 0x99, 0x61,
   0x17, 0x2b, 0x04, 0x7e, 0xba, 0x77, 0xd6, 0x26, 0xe1, 0x69, 0x14, 0x63, 0x55, 0x21, 0x0c, 0x7d]"

text \<open>Modelled from the spec: the round-constant table of \<^verbatim>\<open>ops.c\<close>, 15 entries,
  \<open>Rcon[i] = x^(i-1)\<close> in the high byte of a 32-bit word.\<close>

definition Rcon :: "word32 list" where
  "Rcon =
  [0x8d000000, 0x01000000, 0x02000000, 0x04000000, 0x08000000,
   0x10000000, 0x20000000, 0x40000000, 0x80000000, 0x1b000000,
   0x36000000, 0x6c000000, 0xd8000000, 0xab000000, 0x4d000000]"

text \<open>Modelled from the spec: \<open>xtime\<close> of \<^verbatim>\<open>ops.c\<close>, a left shift with a conditional
  XOR of 0x1B on carry.\<close>

definition xtime :: "byte \<Rightarrow> byte" where
  "xtime b = (if bit b 7 then push_bit 1 b XOR 0x1b else push_bit 1 b)"

text \<open>Modelled from the spec: multiplication in GF(2^8) by the constants that MixColumns
  and its inverse need, built from \<open>xtime\<close>.\<close>

definition gmul2 :: "byte \<Rightarrow> byte" where
  "gmul2 b = xtime b"

definition gmul3 :: "byte \<Rightarrow> byte" where
  "gmul3 b = xtime b XOR b"

definition gmul9 :: "byte \<Rightarrow> byte" where
  "gmul9 b = xtime (xtime (xtime b)) XOR b"

definition gmul11 :: "byte \<Rightarrow> byte" where
  "gmul11 b = xtime (xtime (xtime b)) XOR xtime b XOR b"

definition gmul13 :: "byte \<Rightarrow> byte" where
  "gmul13 b = xtime (xtime (xtime b)) XOR xtime (xtime b) XOR b"

definition gmul14 :: "byte \<Rightarrow> byte" where
  "gmul14 b = xtime (xtime (xtime b)) XOR xtime (xtime b) XOR xtime b"

text \<open>Modelled from the spec: \<open>sub_block\<close> of \<^verbatim>\<open>ops.c\<close> replaces each byte \<open>s[i]\<close> with
  \<open>SBox[s[i]]\<close>; \<open>inv_sub_block\<close> uses the inverse table.\<close>

definition sub_block :: "byte list \<Rightarrow> byte list" where
  "sub_block block = map (\<lambda>b. SBox ! unat b) block"

definition inv_sub_block :: "byte list \<Rightarrow> byte list" where
  "inv_sub_block block = map (\<lambda>b. InvSBox ! unat b) block"

text \<open>Modelled from the spec: \<open>shift_rows\<close> of \<^verbatim>\<open>ops.c\<close>.  Row \<open>r\<close> is rotated left by
  \<open>r\<close> positions; the byte at row \<open>r\<close>, column \<open>c\<close> is at offset \<open>4 * c + r\<close>.
  \<open>inv_shift_rows\<close> rotates right by the same amount.\<close>

definition shift_rows :: "byte list \<Rightarrow> byte list" where
  "shift_rows block =
     map (\<lambda>i. block ! (4 * ((i div 4 + i mod 4) mod 4) + i mod 4)) [0..<16]"

definition inv_shift_rows :: "byte list \<Rightarrow> byte list" where
  "inv_shift_rows block =
     map (\<lambda>i. block ! (4 * ((i div 4 + 4 - i mod 4) mod 4) + i mod 4)) [0..<16]"

text \<open>Modelled from the spec: \<open>mix_columns\<close> of \<^verbatim>\<open>ops.c\<close> multiplies each column (four
  consecutive bytes) by the matrix \<open>[[2,3,1,1],[1,2,3,1],[1,1,2,3],[3,1,1,2]]\<close>;
  \<open>inv_mix_columns\<close> by the circulant matrix with first row \<open>[0x0E,0x0B,0x0D,0x09]\<close>.\<close>

fun mix_columns :: "byte list \<Rightarrow> byte list" where
  "mix_columns (a0 # a1 # a2 # a3 # rest) =
     (gmul2 a0 XOR gmul3 a1 XOR a2 XOR a3) #
     (a0 XOR gmul2 a1 XOR gmul3 a2 XOR a3) #
     (a0 XOR a1 XOR gmul2 a2 XOR gmul3 a3) #
     (gmul3 a0 XOR a1 XOR a2 XOR gmul2 a3) # mix_columns rest"
| "mix_columns rest = rest"

fun inv_mix_columns :: "byte list \<Rightarrow> byte list" where
  "inv_mix_columns (a0 # a1 # a2 # a3 # rest) =
     (gmul14 a0 XOR gmul11 a1 XOR gmul13 a2 XOR gmul9 a3) #
     (gmul9 a0 XOR gmul14 a1 XOR gmul11 a2 XOR gmul13 a3) #
     (gmul13 a0 XOR gmul9 a1 XOR gmul14 a2 XOR gmul11 a3) #
     (gmul11 a0 XOR gmul13 a1 XOR gmul9 a2 XOR gmul14 a3) # inv_mix_columns rest"
| "inv_mix_columns rest = rest"

text \<open>Byte \<open>r\<close> of a schedule word, most significant byte first.\<close>

definition word_byte :: "word32 \<Rightarrow> nat \<Rightarrow> byte" where
  "word_byte w r = ucast (drop_bit (8 * (3 - r)) w)"

text \<open>Modelled from the spec: \<open>add_round_key\<close> of \<^verbatim>\<open>ops.c\<close> XORs the 16-byte state
  with four 32-bit words of the schedule, the words \<open>kschd[round * Nb + c]\<close> for the
  columns \<open>c = 0..3\<close>.  Every call in \<^verbatim>\<open>uaes.c\<close> has \<open>Nb = 4\<close> and \<open>round \<le> Nr\<close>
  with a schedule of at least \<open>4 * (Nr + 1)\<close> words, so the index stays inside the
  schedule.\<close>

definition add_round_key :: "byte list \<Rightarrow> word32 list \<Rightarrow> nat \<Rightarrow> nat \<Rightarrow> byte list" where
  "add_round_key block kschd round Nb =
     map (\<lambda>i. block ! i XOR word_byte (kschd ! (round * Nb + i div 4)) (i mod 4)) [0..<16]"

text \<open>Four bytes packed into a schedule word, most significant byte first.\<close>

definition pack_word :: "byte \<Rightarrow> byte \<Rightarrow> byte \<Rightarrow> byte \<Rightarrow> word32" where
  "pack_word b0 b1 b2 b3 =
     push_bit 24 (ucast b0) OR push_bit 16 (ucast b1) OR push_bit 8 (ucast b2) OR ucast b3"

text \<open>Modelled from the spec: \<open>RotWord\<close> left-rotates the four bytes of a word by one,
  \<open>SubWord\<close> applies the S-box to each byte (key schedule of \<^verbatim>\<open>ops.c\<close>).\<close>

definition RotWord :: "word32 \<Rightarrow> word32" where
  "RotWord w = pack_word (word_byte w 1) (word_byte w 2) (word_byte w 3) (word_byte w 0)"

definition SubWord :: "word32 \<Rightarrow> word32" where
  "SubWord w =
     pack_word (SBox ! unat (word_byte w 0)) (SBox ! unat (word_byte w 1))
               (SBox ! unat (word_byte w 2)) (SBox ! unat (word_byte w 3))"

text \<open>Modelled from the spec: \<open>key_expansion\<close> of \<^verbatim>\<open>ops.c\<close> (section 4.3).  The first
  loop copies the \<open>Nk\<close> key words, the second fills the words \<open>Nk .. n - 1\<close>:
  \<open>temp = w[i-1]\<close>, transformed when \<open>i mod Nk = 0\<close> or (for \<open>Nk > 6\<close>) when
  \<open>i mod Nk = 4\<close>, and \<open>w[i] = w[i-Nk] XOR temp\<close>.\<close>

function key_copy :: "byte list \<Rightarrow> word32 list \<Rightarrow> nat \<Rightarrow> nat \<Rightarrow> word32 list" where
  "key_copy key w Nk i =
     (if i < Nk
      then key_copy key
             (w[i := pack_word (key ! (4 * i)) (key ! (4 * i + 1))
                               (key ! (4 * i + 2)) (key ! (4 * i + 3))])
             Nk (Suc i)
      else w)"
  by pat_completeness auto
termination
  by (relation "measure (\<lambda>(key, w, Nk, i). Nk - i)") auto

declare key_copy.simps [simp del]

definition key_temp :: "word32 list \<Rightarrow> nat \<Rightarrow> nat \<Rightarrow> word32" where
  "key_temp w Nk i =
     (if i mod Nk = 0 then SubWord (RotWord (w ! (i - 1))) XOR Rcon ! (i div Nk)
      else if Nk > 6 \<and> i mod Nk = 4 then SubWord (w ! (i - 1))
      else w ! (i - 1))"

function key_expansion_loop :: "word32 list \<Rightarrow> nat \<Rightarrow> nat \<Rightarrow> nat \<Rightarrow> word32 list" where
  "key_expansion_loop w Nk n i =
     (if i < n
      then key_expansion_loop (w[i := w ! (i - Nk) XOR key_temp w Nk i]) Nk n (Suc i)
      else w)"
  by pat_completeness auto
termination
  by (relation "measure (\<lambda>(w, Nk, n, i). n - i)") auto

declare key_expansion_loop.simps [simp del]

text \<open>The result is \<open>None\<close> where the C function would leave defined behaviour: a key
  buffer shorter than \<open>4 * Nk\<close> bytes, a schedule array shorter than the words to be
  written, or \<open>Nk = 0\<close> (a division by zero in \<open>i mod Nk\<close>).\<close>

definition key_expansion :: "byte list \<Rightarrow> word32 list \<Rightarrow> nat \<Rightarrow> nat \<Rightarrow> word32 list option" where
  "key_expansion key kschd Nk n =
     (if 0 < Nk \<and> 4 * Nk \<le> length key \<and> Nk \<le> length kschd \<and> n \<le> length kschd
      then Some (key_expansion_loop (key_copy key kschd Nk 0) Nk n Nk)
      else None)"

text \<open>Modelled from the spec: the alignment macros of \<^verbatim>\<open>ops.h\<close>.  The block alignment
  is 16 bytes, its mask 15, and \<open>uAES_ALIGN\<close> rounds a size up to the next multiple of
  the alignment.\<close>

definition uAES_BLOCK_ALIGN :: nat where
  "uAES_BLOCK_ALIGN = 16"

definition uAES_BLOCK_ALIGN_MASK :: nat where
  "uAES_BLOCK_ALIGN_MASK = 15"

definition uAES_ALIGN :: "nat \<Rightarrow> nat \<Rightarrow> nat" where
  "uAES_ALIGN x a = ((x + (a - 1)) div a) * a"

section \<open>Caller memory\<close>

text \<open>
  The entry points of \<^verbatim>\<open>uaes.c\<close> work in place through pointers.  The memory of the
  caller is a store of objects, each a sequence of bytes; a pointer is an object together
  with a byte offset; a pointer argument of an entry point is \<open>None\<close> for \<open>NULL\<close> and
  \<open>Some obj\<close> for the start of an object.  An access outside an object is undefined in
  C; every operation below that performs one yields \<open>None\<close>.
\<close>

type_synonym obj = nat
type_synonym heap = "obj \<Rightarrow> byte list"
type_synonym ptr = "obj \<times> nat"

text \<open>\<^verbatim>\<open>memcpy(block, p, n)\<close> from the store into a local array, and
  \<^verbatim>\<open>memcpy(p, block, n)\<close> back.\<close>

definition load :: "heap \<Rightarrow> ptr \<Rightarrow> nat \<Rightarrow> byte list option" where
  "load h p n =
     (if snd p + n \<le> length (h (fst p)) then Some (take n (drop (snd p) (h (fst p))))
      else None)"

definition store :: "heap \<Rightarrow> ptr \<Rightarrow> byte list \<Rightarrow> heap option" where
  "store h p bs =
     (if snd p + length bs \<le> length (h (fst p))
      then Some (h(fst p := take (snd p) (h (fst p)) @ bs @
                              drop (snd p + length bs) (h (fst p))))
      else None)"

section \<open>The functions of \<^verbatim>\<open>uaes.c\<close>\<close>

subsection \<open>\<^verbatim>\<open>uaes_xor_iv\<close>\<close>

text \<open>One statement \<^verbatim>\<open>blk[k] ^= iv[k]\<close>: it reads both bytes from the store as it is
  at that moment and writes through \<open>blk\<close> only.\<close>

definition xor_byte :: "heap \<Rightarrow> ptr \<Rightarrow> ptr \<Rightarrow> nat \<Rightarrow> heap option" where
  "xor_byte h blk iv k =
     (if snd blk + k < length (h (fst blk)) \<and> snd iv + k < length (h (fst iv))
      then Some (h(fst blk := (h (fst blk))[snd blk + k :=
                     h (fst blk) ! (snd blk + k) XOR h (fst iv) ! (snd iv + k)]))
      else None)"

text \<open>The loop \<^verbatim>\<open>for(c = 0; c < 4; c++)\<close> with its four statements.\<close>

function uaes_xor_iv_loop :: "heap \<Rightarrow> ptr \<Rightarrow> ptr \<Rightarrow> nat \<Rightarrow> heap option" where
  "uaes_xor_iv_loop h blk iv c =
     (if c < 4
      then (case xor_byte h blk iv (4 * c + 0) of None \<Rightarrow> None | Some h0 \<Rightarrow>
           (case xor_byte h0 blk iv (4 * c + 1) of None \<Rightarrow> None | Some h1 \<Rightarrow>
           (case xor_byte h1 blk iv (4 * c + 2) of None \<Rightarrow> None | Some h2 \<Rightarrow>
           (case xor_byte h2 blk iv (4 * c + 3) of None \<Rightarrow> None | Some h3 \<Rightarrow>
              uaes_xor_iv_loop h3 blk iv (Suc c)))))
      else Some h)"
  by pat_completeness auto
termination
  by (relation "measure (\<lambda>(h, blk, iv, c). 4 - c)") auto

declare uaes_xor_iv_loop.simps [simp del]

definition uaes_xor_iv :: "heap \<Rightarrow> ptr \<Rightarrow> ptr \<Rightarrow> heap option" where
  "uaes_xor_iv h blk iv = uaes_xor_iv_loop h blk iv 0"

subsection \<open>\<^verbatim>\<open>uaes_foward_cipher\<close> and \<^verbatim>\<open>uaes_inverse_cipher\<close>\<close>

text \<open>The loop \<^verbatim>\<open>for(round = 1; round < Nr; round++)\<close> of the forward cipher on the
  local array \<open>block\<close>.\<close>

function foward_rounds :: "byte list \<Rightarrow> word32 list \<Rightarrow> nat \<Rightarrow> nat \<Rightarrow> nat \<Rightarrow> byte list" where
  "foward_rounds block kschd Nb Nr round =
     (if round < Nr
      then foward_rounds
             (add_round_key (mix_columns (shift_rows (sub_block block))) kschd round Nb)
             kschd Nb Nr (Suc round)
      else block)"
  by pat_completeness auto
termination
  by (relation "measure (\<lambda>(block, kschd, Nb, Nr, round). Nr - round)") auto

declare foward_rounds.simps [simp del]

text \<open>The statements of \<^verbatim>\<open>uaes_foward_cipher\<close> between its two \<^verbatim>\<open>memcpy\<close> calls.\<close>

definition foward_block :: "byte list \<Rightarrow> word32 list \<Rightarrow> nat \<Rightarrow> nat \<Rightarrow> byte list" where
  "foward_block block kschd Nb Nr =
     add_round_key
       (shift_rows (sub_block
          (foward_rounds (add_round_key block kschd 0 Nb) kschd Nb Nr 1)))
       kschd Nr Nb"

definition uaes_foward_cipher ::
    "heap \<Rightarrow> ptr \<Rightarrow> word32 list \<Rightarrow> nat \<Rightarrow> nat \<Rightarrow> nat \<Rightarrow> heap option" where
  "uaes_foward_cipher h buf kschd Nk Nb Nr =
     (case load h buf uAES_BLOCK_SIZE of
        None \<Rightarrow> None
      | Some block \<Rightarrow> store h buf (take uAES_BLOCK_SIZE (foward_block block kschd Nb Nr)))"

text \<open>The loop \<^verbatim>\<open>for(round = Nr - 1; round > 0; round--)\<close> of the inverse cipher.  It is
  entered with \<open>Nr\<close> among 10, 12 and 14, so \<open>Nr - 1\<close> does not wrap.\<close>

function inverse_rounds :: "byte list \<Rightarrow> word32 list \<Rightarrow> nat \<Rightarrow> nat \<Rightarrow> byte list" where
  "inverse_rounds block kschd Nb round =
     (if round > 0
      then inverse_rounds
             (inv_mix_columns
                (add_round_key (inv_sub_block (inv_shift_rows block)) kschd round Nb))
             kschd Nb (round - 1)
      else block)"
  by pat_completeness auto
termination
  by (relation "measure (\<lambda>(block, kschd, Nb, round). round)") auto

declare inverse_rounds.simps [simp del]

definition inverse_block :: "byte list \<Rightarrow> word32 list \<Rightarrow> nat \<Rightarrow> nat \<Rightarrow> byte list" where
  "inverse_block block kschd Nb Nr =
     add_round_key
       (inv_sub_block (inv_shift_rows
          (inverse_rounds (add_round_key block kschd Nr Nb) kschd Nb (Nr - 1))))
       kschd 0 Nb"

definition uaes_inverse_cipher ::
    "heap \<Rightarrow> ptr \<Rightarrow> word32 list \<Rightarrow> nat \<Rightarrow> nat \<Rightarrow> nat \<Rightarrow> heap option" where
  "uaes_inverse_cipher h buf kschd Nk Nb Nr =
     (case load h buf uAES_BLOCK_SIZE of
        None \<Rightarrow> None
      | Some block \<Rightarrow> store h buf (take uAES_BLOCK_SIZE (inverse_block block kschd Nb Nr)))"


subsection \<open>Locals shared by the multi-block entry points\<close>

text \<open>The four multi-block entry points start with the same three computations: the
  number of blocks \<open>offset\<close> (the size, rounded up to the alignment when it is not a
  multiple of it, shifted right by 4), and \<open>Nk\<close> and \<open>Nr\<close> from the variant tag, 0 for
  a tag that names no variant.  \<open>Nb\<close> is the constant 4.\<close>

definition block_offset :: "nat \<Rightarrow> nat" where
  "block_offset sz =
     drop_bit 4 (if 0 \<noteq> (sz AND uAES_BLOCK_ALIGN_MASK)
                 then uAES_ALIGN sz uAES_BLOCK_ALIGN else sz)"

definition Nk_of :: "nat \<Rightarrow> nat" where
  "Nk_of aes_mode =
     (if uAES128 = aes_mode then 4 else if uAES192 = aes_mode then 6
      else if uAES256 = aes_mode then 8 else 0)"

definition Nr_of :: "nat \<Rightarrow> nat" where
  "Nr_of aes_mode =
     (if uAES128 = aes_mode then 10 else if uAES192 = aes_mode then 12
      else if uAES256 = aes_mode then 14 else 0)"

subsection \<open>Block walks\<close>

text \<open>\<^verbatim>\<open>while(offset > idx)\<close> of \<^verbatim>\<open>uaes_ecb_encryption\<close> and
  \<^verbatim>\<open>uaes_ecb_decryption\<close>.\<close>

function ecb_encryption_loop ::
    "heap \<Rightarrow> obj \<Rightarrow> word32 list \<Rightarrow> nat \<Rightarrow> nat \<Rightarrow> nat \<Rightarrow> nat \<Rightarrow> nat \<Rightarrow> heap option" where
  "ecb_encryption_loop h plaintext kschd Nk Nb Nr offset idx =
     (if offset > idx
      then (case uaes_foward_cipher h (plaintext, 16 * idx) kschd Nk Nb Nr of
              None \<Rightarrow> None
            | Some h' \<Rightarrow> ecb_encryption_loop h' plaintext kschd Nk Nb Nr offset (Suc idx))
      else Some h)"
  by pat_completeness auto
termination
  by (relation "measure (\<lambda>(h, p, kschd, Nk, Nb, Nr, offset, idx). offset - idx)") auto

declare ecb_encryption_loop.simps [simp del]

function ecb_decryption_loop ::
    "heap \<Rightarrow> obj \<Rightarrow> word32 list \<Rightarrow> nat \<Rightarrow> nat \<Rightarrow> nat \<Rightarrow> nat \<Rightarrow> nat \<Rightarrow> heap option" where
  "ecb_decryption_loop h ciphertext kschd Nk Nb Nr offset idx =
     (if offset > idx
      then (case uaes_inverse_cipher h (ciphertext, 16 * idx) kschd Nk Nb Nr of
              None \<Rightarrow> None
            | Some h' \<Rightarrow> ecb_decryption_loop h' ciphertext kschd Nk Nb Nr offset (Suc idx))
      else Some h)"
  by pat_completeness auto
termination
  by (relation "measure (\<lambda>(h, p, kschd, Nk, Nb, Nr, offset, idx). offset - idx)") auto

declare ecb_decryption_loop.simps [simp del]

text \<open>\<^verbatim>\<open>while(offset > idx)\<close> of \<^verbatim>\<open>uaes_cbc_encryption\<close>, entered with \<open>idx = 1\<close>.\<close>

function cbc_encryption_loop ::
    "heap \<Rightarrow> obj \<Rightarrow> word32 list \<Rightarrow> nat \<Rightarrow> nat \<Rightarrow> nat \<Rightarrow> nat \<Rightarrow> nat \<Rightarrow> heap option" where
  "cbc_encryption_loop h plaintext kschd Nk Nb Nr offset idx =
     (if offset > idx
      then (case uaes_xor_iv h (plaintext, 16 * idx) (plaintext, 16 * (idx - 1)) of
              None \<Rightarrow> None
            | Some h0 \<Rightarrow>
           (case uaes_foward_cipher h0 (plaintext, 16 * idx) kschd Nk Nb Nr of
              None \<Rightarrow> None
            | Some h1 \<Rightarrow> cbc_encryption_loop h1 plaintext kschd Nk Nb Nr offset (Suc idx)))
      else Some h)"
  by pat_completeness auto
termination
  by (relation "measure (\<lambda>(h, p, kschd, Nk, Nb, Nr, offset, idx). offset - idx)") auto

declare cbc_encryption_loop.simps [simp del]

text \<open>\<^verbatim>\<open>while(idx > 0)\<close> of \<^verbatim>\<open>uaes_cbc_decryption\<close>, entered with
  \<open>idx = offset - 1\<close>.\<close>

function cbc_decryption_loop ::
    "heap \<Rightarrow> obj \<Rightarrow> word32 list \<Rightarrow> nat \<Rightarrow> nat \<Rightarrow> nat \<Rightarrow> nat \<Rightarrow> heap option" where
  "cbc_decryption_loop h ciphertext kschd Nk Nb Nr idx =
     (if idx > 0
      then (case uaes_inverse_cipher h (ciphertext, 16 * idx) kschd Nk Nb Nr of
              None \<Rightarrow> None
            | Some h0 \<Rightarrow>
           (case uaes_xor_iv h0 (ciphertext, 16 * idx) (ciphertext, 16 * (idx - 1)) of
              None \<Rightarrow> None
            | Some h1 \<Rightarrow> cbc_decryption_loop h1 ciphertext kschd Nk Nb Nr (idx - 1)))
      else Some h)"
  by pat_completeness auto
termination
  by (relation "measure (\<lambda>(h, p, kschd, Nk, Nb, Nr, idx). idx)") auto

declare cbc_decryption_loop.simps [simp del]

subsection \<open>Entry points\<close>

text \<open>Each entry point returns the \<^verbatim>\<open>int\<close> result together with the store it leaves.
  The schedule is the local array \<open>kschd\<close>, zero-initialised.\<close>

definition uaes_cbc_encryption ::
    "heap \<Rightarrow> obj option \<Rightarrow> nat \<Rightarrow> obj option \<Rightarrow> obj option \<Rightarrow> nat \<Rightarrow> (int \<times> heap) option" where
  "uaes_cbc_encryption h plaintext plaintext_size key init_vec aes_mode =
     (if key \<noteq> None \<and> plaintext \<noteq> None \<and> init_vec \<noteq> None \<and>
        0 < plaintext_size \<and> uAES_MAX_INPUT_SIZE \<ge> plaintext_size \<and> uAESRGE > aes_mode
      then (case key_expansion (h (the key)) (replicate uAES_MAX_KSCHD_SIZE 0)
                   (Nk_of aes_mode) (4 * (Nr_of aes_mode + 1)) of
             None \<Rightarrow> None
           | Some kschd \<Rightarrow>
            (case uaes_xor_iv h (the plaintext, 0) (the init_vec, 0) of None \<Rightarrow> None | Some h0 \<Rightarrow>
            (case uaes_foward_cipher h0 (the plaintext, 16 * 0) kschd
                    (Nk_of aes_mode) 4 (Nr_of aes_mode) of None \<Rightarrow> None | Some h1 \<Rightarrow>
            (case cbc_encryption_loop h1 (the plaintext) kschd (Nk_of aes_mode) 4
                    (Nr_of aes_mode) (block_offset plaintext_size) 1 of
               None \<Rightarrow> None
             | Some h' \<Rightarrow> Some (0, h')))))
      else Some (- 1, h))"

definition uaes_cbc_decryption ::
    "heap \<Rightarrow> obj option \<Rightarrow> nat \<Rightarrow> obj option \<Rightarrow> obj option \<Rightarrow> nat \<Rightarrow> (int \<times> heap) option" where
  "uaes_cbc_decryption h ciphertext ciphertext_size key init_vec aes_mode =
     (if key \<noteq> None \<and> ciphertext \<noteq> None \<and> init_vec \<noteq> None \<and>
        0 < ciphertext_size \<and> uAES_MAX_INPUT_SIZE \<ge> ciphertext_size \<and> uAESRGE > aes_mode
      then (case key_expansion (h (the key)) (replicate uAES_MAX_KSCHD_SIZE 0)
                   (Nk_of aes_mode) (4 * (Nr_of aes_mode + 1)) of
             None \<Rightarrow> None
           | Some kschd \<Rightarrow>
            (case cbc_decryption_loop h (the ciphertext) kschd (Nk_of aes_mode) 4
                    (Nr_of aes_mode) (block_offset ciphertext_size - 1) of None \<Rightarrow> None | Some h0 \<Rightarrow>
            (case uaes_inverse_cipher h0 (the ciphertext, 16 * 0) kschd
                    (Nk_of aes_mode) 4 (Nr_of aes_mode) of None \<Rightarrow> None | Some h1 \<Rightarrow>
            (case uaes_xor_iv h1 (the ciphertext, 16 * 0) (the init_vec, 0) of
               None \<Rightarrow> None
             | Some h' \<Rightarrow> Some (0, h')))))
      else Some (- 1, h))"

definition uaes_ecb_encryption ::
    "heap \<Rightarrow> obj option \<Rightarrow> nat \<Rightarrow> obj option \<Rightarrow> nat \<Rightarrow> (int \<times> heap) option" where
  "uaes_ecb_encryption h plaintext plaintext_size key aes_mode =
     (if key \<noteq> None \<and> plaintext \<noteq> None \<and>
        0 < plaintext_size \<and> uAES_MAX_INPUT_SIZE \<ge> plaintext_size \<and> uAESRGE > aes_mode
      then (case key_expansion (h (the key)) (replicate uAES_MAX_KSCHD_SIZE 0)
                   (Nk_of aes_mode) (4 * (Nr_of aes_mode + 1)) of
             None \<Rightarrow> None
           | Some kschd \<Rightarrow>
            (case ecb_encryption_loop h (the plaintext) kschd (Nk_of aes_mode) 4 (Nr_of aes_mode)
                     (block_offset plaintext_size) 0 of
               None \<Rightarrow> None
             | Some h' \<Rightarrow> Some (0, h')))
      else Some (- 1, h))"

definition uaes_ecb_decryption ::
    "heap \<Rightarrow> obj option \<Rightarrow> nat \<Rightarrow> obj option \<Rightarrow> nat \<Rightarrow> (int \<times> heap) option" where
  "uaes_ecb_decryption h ciphertext ciphertext_size key aes_mode =
     (if key \<noteq> None \<and> ciphertext \<noteq> None \<and>
        0 < ciphertext_size \<and> uAES_MAX_INPUT_SIZE \<ge> ciphertext_size \<and> uAESRGE > aes_mode
      then (case key_expansion (h (the key)) (replicate uAES_MAX_KSCHD_SIZE 0)
                   (Nk_of aes_mode) (4 * (Nr_of aes_mode + 1)) of
             None \<Rightarrow> None
           | Some kschd \<Rightarrow>
            (case ecb_decryption_loop h (the ciphertext) kschd (Nk_of aes_mode) 4 (Nr_of aes_mode)
                     (block_offset ciphertext_size) 0 of
               None \<Rightarrow> None
             | Some h' \<Rightarrow> Some (0, h')))
      else Some (- 1, h))"

definition uaes128enc ::
    "heap \<Rightarrow> obj option \<Rightarrow> obj option \<Rightarrow> nat \<Rightarrow> (int \<times> heap) option" where
  "uaes128enc h plaintext key plaintext_size =
     (if key \<noteq> None \<and> plaintext \<noteq> None \<and> 0 < plaintext_size \<and> uAES_BLOCK_SIZE \<ge> plaintext_size
      then (case key_expansion (h (the key)) (replicate uAES128_KSCHD_SIZE 0) 4 (4 * (10 + 1)) of
              None \<Rightarrow> None
            | Some kschd \<Rightarrow>
                (case uaes_foward_cipher h (the plaintext, 0) kschd 4 4 10 of
                   None \<Rightarrow> None
                 | Some h' \<Rightarrow> Some (0, h')))
      else Some (- 1, h))"

definition uaes192enc ::
    "heap \<Rightarrow> obj option \<Rightarrow> obj option \<Rightarrow> nat \<Rightarrow> (int \<times> heap) option" where
  "uaes192enc h plaintext key plaintext_size =
     (if key \<noteq> None \<and> plaintext \<noteq> None \<and> 0 < plaintext_size \<and> uAES_BLOCK_SIZE \<ge> plaintext_size
      then (case key_expansion (h (the key)) (replicate uAES192_KSCHD_SIZE 0) 6 (4 * (12 + 1)) of
              None \<Rightarrow> None
            | Some kschd \<Rightarrow>
                (case uaes_foward_cipher h (the plaintext, 0) kschd 6 4 12 of
                   None \<Rightarrow> None
                 | Some h' \<Rightarrow> Some (0, h')))
      else Some (- 1, h))"

definition uaes256enc ::
    "heap \<Rightarrow> obj option \<Rightarrow> obj option \<Rightarrow> nat \<Rightarrow> (int \<times> heap) option" where
  "uaes256enc h plaintext key plaintext_size =
     (if key \<noteq> None \<and> plaintext \<noteq> None \<and> 0 < plaintext_size \<and> uAES_BLOCK_SIZE \<ge> plaintext_size
      then (case key_expansion (h (the key)) (replicate uAES256_KSCHD_SIZE 0) 8 (4 * (14 + 1)) of
              None \<Rightarrow> None
            | Some kschd \<Rightarrow>
                (case uaes_foward_cipher h (the plaintext, 0) kschd 8 4 14 of
                   None \<Rightarrow> None
                 | Some h' \<Rightarrow> Some (0, h')))
      else Some (- 1, h))"

definition uaes128dec ::
    "heap \<Rightarrow> obj option \<Rightarrow> obj option \<Rightarrow> nat \<Rightarrow> (int \<times> heap) option" where
  "uaes128dec h ciphertext key ciphertext_size =
     (if key \<noteq> None \<and> ciphertext \<noteq> None \<and> 0 < ciphertext_size \<and> uAES_BLOCK_SIZE \<ge> ciphertext_size
      then (case key_expansion (h (the key)) (replicate uAES128_KSCHD_SIZE 0) 4 (4 * (10 + 1)) of
              None \<Rightarrow> None
            | Some kschd \<Rightarrow>
                (case uaes_inverse_cipher h (the ciphertext, 0) kschd 4 4 10 of
                   None \<Rightarrow> None
                 | Some h' \<Rightarrow> Some (0, h')))
      else Some (- 1, h))"

definition uaes192dec ::
    "heap \<Rightarrow> obj option \<Rightarrow> obj option \<Rightarrow> nat \<Rightarrow> (int \<times> heap) option" where
  "uaes192dec h ciphertext key ciphertext_size =
     (if key \<noteq> None \<and> ciphertext \<noteq> None \<and> 0 < ciphertext_size \<and> uAES_BLOCK_SIZE \<ge> ciphertext_size
      then (case key_expansion (h (the key)) (replicate uAES192_KSCHD_SIZE 0) 6 (4 * (12 + 1)) of
              None \<Rightarrow> None
            | Some kschd \<Rightarrow>
                (case uaes_inverse_cipher h (the ciphertext, 0) kschd 6 4 12 of
                   None \<Rightarrow> None
                 | Some h' \<Rightarrow> Some (0, h')))
      else Some (- 1, h))"

definition uaes256dec ::
    "heap \<Rightarrow> obj option \<Rightarrow> obj option \<Rightarrow> nat \<Rightarrow> (int \<times> heap) option" where
  "uaes256dec h ciphertext key ciphertext_size =
     (if key \<noteq> None \<and> ciphertext \<noteq> None \<and> 0 < ciphertext_size \<and> uAES_BLOCK_SIZE \<ge> ciphertext_size
      then (case key_expansion (h (the key)) (replicate uAES256_KSCHD_SIZE 0) 8 (4 * (14 + 1)) of
              None \<Rightarrow> None
            | Some kschd \<Rightarrow>
                (case uaes_inverse_cipher h (the ciphertext, 0) kschd 8 4 14 of
                   None \<Rightarrow> None
                 | Some h' \<Rightarrow> Some (0, h')))
      else Some (- 1, h))"

section \<open>Views of a buffer and of the results\<close>

text \<open>
  The definitions of this section do not come from the C source.  They name what the
  theorems below talk about: the 16-byte blocks of a buffer, the buffer with its first
  blocks replaced, the byte-wise XOR of two blocks, and the round keys, block cipher and
  chaining that the entry points are shown to compute.
\<close>

definition xor_block :: "byte list \<Rightarrow> byte list \<Rightarrow> byte list" where
  "xor_block a b = map2 (XOR) a b"

definition get_block :: "byte list \<Rightarrow> nat \<Rightarrow> byte list" where
  "get_block buf idx = take 16 (drop (16 * idx) buf)"

definition put_block :: "byte list \<Rightarrow> nat \<Rightarrow> byte list \<Rightarrow> byte list" where
  "put_block buf idx blk = take (16 * idx) buf @ blk @ drop (16 * idx + 16) buf"

definition blocks :: "byte list \<Rightarrow> nat \<Rightarrow> byte list list" where
  "blocks buf n = map (get_block buf) [0..<n]"

definition replace_blocks :: "byte list \<Rightarrow> nat \<Rightarrow> byte list list \<Rightarrow> byte list" where
  "replace_blocks buf n bs = concat bs @ drop (16 * n) buf"

text \<open>Two 16-byte regions do not overlap: they lie in different objects or at least 16
  bytes apart.\<close>

definition separate :: "ptr \<Rightarrow> ptr \<Rightarrow> bool" where
  "separate p q \<longleftrightarrow> fst p \<noteq> fst q \<or> snd q + 16 \<le> snd p \<or> snd p + 16 \<le> snd q"

text \<open>The store after the first \<open>k\<close> statements of \<^verbatim>\<open>uaes_xor_iv\<close>, when the two
  regions do not overlap.\<close>

definition xor_prefix :: "heap \<Rightarrow> ptr \<Rightarrow> ptr \<Rightarrow> nat \<Rightarrow> heap" where
  "xor_prefix h blk iv k =
     h(fst blk := map (\<lambda>j. if snd blk \<le> j \<and> j < snd blk + k
                            then h (fst blk) ! j XOR h (fst iv) ! (snd iv + (j - snd blk))
                            else h (fst blk) ! j) [0..<length (h (fst blk))])"

text \<open>The schedule that \<open>key_expansion\<close> leaves in a zero-initialised array of \<open>ksize\<close>
  words, and the block transforms of a multi-block entry point for a key and a variant
  tag.\<close>

definition key_schedule :: "byte list \<Rightarrow> nat \<Rightarrow> nat \<Rightarrow> nat \<Rightarrow> word32 list" where
  "key_schedule key ksize Nk Nr =
     key_expansion_loop (key_copy key (replicate ksize 0) Nk 0) Nk (4 * (Nr + 1)) Nk"

definition encrypt_block :: "byte list \<Rightarrow> nat \<Rightarrow> byte list \<Rightarrow> byte list" where
  "encrypt_block key aes_mode block =
     foward_block block
       (key_schedule key uAES_MAX_KSCHD_SIZE (Nk_of aes_mode) (Nr_of aes_mode)) 4 (Nr_of aes_mode)"

definition decrypt_block :: "byte list \<Rightarrow> nat \<Rightarrow> byte list \<Rightarrow> byte list" where
  "decrypt_block key aes_mode block =
     inverse_block block
       (key_schedule key uAES_MAX_KSCHD_SIZE (Nk_of aes_mode) (Nr_of aes_mode)) 4 (Nr_of aes_mode)"

text \<open>The forward cipher as section 4.2 of the specification words it: round key 0,
  then the rounds \<open>1 .. Nr - 1\<close> with all four steps, then a final round without
  \<open>mix_columns\<close>.\<close>

definition spec_forward_cipher :: "byte list \<Rightarrow> word32 list \<Rightarrow> nat \<Rightarrow> nat \<Rightarrow> byte list" where
  "spec_forward_cipher state kschd Nb Nr =
     add_round_key
       (shift_rows (sub_block
          (fold (\<lambda>round s. add_round_key (mix_columns (shift_rows (sub_block s))) kschd round Nb)
             [1..<Nr] (add_round_key state kschd 0 Nb))))
       kschd Nr Nb"

text \<open>CBC encryption as section 4.4.3 words it, on a list of blocks: the first block is
  XORed with the IV and enciphered, every later block is XORed with the ciphertext just
  produced for its predecessor and enciphered, in increasing order.\<close>

fun cbc_encrypt_blocks ::
    "(byte list \<Rightarrow> byte list) \<Rightarrow> byte list \<Rightarrow> byte list list \<Rightarrow> byte list list" where
  "cbc_encrypt_blocks E prev [] = []"
| "cbc_encrypt_blocks E prev (b # bs) =
     E (xor_block b prev) # cbc_encrypt_blocks E (E (xor_block b prev)) bs"

text \<open>CBC decryption as section 4.4.3 words it: block \<open>idx\<close> of the result is the
  deciphered ciphertext block \<open>idx\<close> XORed with the ciphertext block \<open>idx - 1\<close> as it
  was before the call, block 0 with the IV.\<close>

definition cbc_decrypt_blocks ::
    "(byte list \<Rightarrow> byte list) \<Rightarrow> byte list \<Rightarrow> byte list list \<Rightarrow> byte list list" where
  "cbc_decrypt_blocks D iv cs =
     map (\<lambda>idx. xor_block (D (cs ! idx)) (if idx = 0 then iv else cs ! (idx - 1)))
       [0..<length cs]"


text \<open>The store after \<^verbatim>\<open>uaes_xor_iv\<close> has run \<open>k\<close> steps with both pointers equal:
  every byte XORed with itself is 0, so the first \<open>k\<close> bytes at \<open>blk\<close> are zero and the
  rest of the store is as it was.\<close>

definition zero_prefix :: "heap \<Rightarrow> ptr \<Rightarrow> nat \<Rightarrow> heap" where
  "zero_prefix h blk k =
     h(fst blk := map (\<lambda>j. if snd blk \<le> j \<and> j < snd blk + k then 0 else h (fst blk) ! j)
                    [0..<length (h (fst blk))])"

section \<open>Test vectors\<close>

text \<open>The known-answer vector of FIPS-197, Appendix B (scenario 1 of the specification),
  with the expanded key of Appendix A.1, and stores that hold it.\<close>

definition appendix_b_key :: "byte list" where
  "appendix_b_key =
     [0x2b, 0x7e, 0x15, 0x16, 0x28, 0xae, 0xd2, 0xa6, 0xab, 0xf7, 0x15, 0x88, 0x09, 0xcf, 0x4f, 0x3c]"

definition appendix_b_plaintext :: "byte list" where
  "appendix_b_plaintext =
     [0x32, 0x43, 0xf6, 0xa8, 0x88, 0x5a, 0x30, 0x8d, 0x31, 0x31, 0x98, 0xa2, 0xe0, 0x37, 0x07, 0x34]"

definition appendix_b_ciphertext :: "byte list" where
  "appendix_b_ciphertext =
     [0x39, 0x25, 0x84, 0x1d, 0x02, 0xdc, 0x09, 0xfb, 0xdc, 0x11, 0x85, 0x97, 0x19, 0x6a, 0x0b, 0x32]"

definition appendix_b_schedule :: "word32 list" where
  "appendix_b_schedule =
  [
   0x2b7e1516, 0x28aed2a6, 0xabf71588, 0x09cf4f3c,
   0xa0fafe17, 0x88542cb1, 0x23a33939, 0x2a6c7605,
   0xf2c295f2, 0x7a96b943, 0x5935807a, 0x7359f67f,
   0x3d80477d, 0x4716fe3e, 0x1e237e44, 0x6d7a883b,
   0xef44a541, 0xa8525b7f, 0xb671253b, 0xdb0bad00,
   0xd4d1c6f8, 0x7c839d87, 0xcaf2b8bc, 0x11f915bc,
   0x6d88a37a, 0x110b3efd, 0xdbf98641, 0xca0093fd,
   0x4e54f70e, 0x5f5fc9f3, 0x84a64fb2, 0x4ea6dc4f,
   0xead27321, 0xb58dbad2, 0x312bf560, 0x7f8d292f,
   0xac7766f3, 0x19fadc21, 0x28d12941, 0x575c006e,
   0xd014f9a8, 0xc9ee2589, 0xe13f0cc8, 0xb6630ca6]"

definition example_iv :: "byte list" where
  "example_iv =
     [0x00, 0x01, 0x02, 0x03, 0x04, 0x05, 0x06, 0x07, 0x08, 0x09, 0x0a, 0x0b, 0x0c, 0x0d, 0x0e, 0x0f]"

text \<open>Object 0 is a data buffer of two blocks, object 1 the key, object 2 the IV.\<close>

definition example_store :: heap where
  "example_store =
     (\<lambda>_. [])(0 := appendix_b_plaintext @ appendix_b_ciphertext, 1 := appendix_b_key,
               2 := example_iv)"

text \<open>The same store with another second block.\<close>

definition example_store' :: heap where
  "example_store' =
     (\<lambda>_. [])(0 := appendix_b_plaintext @ appendix_b_plaintext, 1 := appendix_b_key,
               2 := example_iv)"

text \<open>A data buffer of exactly one block.\<close>

definition appendix_b_store :: heap where
  "appendix_b_store = (\<lambda>_. [])(0 := appendix_b_plaintext, 1 := appendix_b_key)"

section \<open>Algebra of the round primitives\<close>

lemma xtime_xor: "xtime (a XOR b) = xtime a XOR xtime b"
  by (simp add: xtime_def bit_xor_iff ac_simps)

lemma inv_mix_column:
  fixes a0 :: byte
  shows "gmul14 (gmul2 a0 XOR gmul3 a1 XOR a2 XOR a3) XOR gmul11 (a0 XOR gmul2 a1 XOR gmul3 a2 XOR a3) XOR
   gmul13 (a0 XOR a1 XOR gmul2 a2 XOR gmul3 a3) XOR gmul9 (gmul3 a0 XOR a1 XOR a2 XOR gmul2 a3) = a0"
  and "gmul9 (gmul2 a0 XOR gmul3 a1 XOR a2 XOR a3) XOR gmul14 (a0 XOR gmul2 a1 XOR gmul3 a2 XOR a3) XOR
   gmul11 (a0 XOR a1 XOR gmul2 a2 XOR gmul3 a3) XOR gmul13 (gmul3 a0 XOR a1 XOR a2 XOR gmul2 a3) = a1"
  and "gmul13 (gmul2 a0 XOR gmul3 a1 XOR a2 XOR a3) XOR gmul9 (a0 XOR gmul2 a1 XOR gmul3 a2 XOR a3) XOR
   gmul14 (a0 XOR a1 XOR gmul2 a2 XOR gmul3 a3) XOR gmul11 (gmul3 a0 XOR a1 XOR a2 XOR gmul2 a3) = a2"
  and "gmul11 (gmul2 a0 XOR gmul3 a1 XOR a2 XOR a3) XOR gmul13 (a0 XOR gmul2 a1 XOR gmul3 a2 XOR a3) XOR
   gmul9 (a0 XOR a1 XOR gmul2 a2 XOR gmul3 a3) XOR gmul14 (gmul3 a0 XOR a1 XOR a2 XOR gmul2 a3) = a3"
  by (simp_all add: gmul2_def gmul3_def gmul9_def gmul11_def gmul13_def gmul14_def xtime_xor ac_simps)

lemma inv_mix_columns_mix_columns: "inv_mix_columns (mix_columns block) = block"
  by (induction block rule: mix_columns.induct) (simp_all add: inv_mix_column)

lemma length_mix_columns: "length (mix_columns block) = length block"
  by (induction block rule: mix_columns.induct) simp_all

lemma length_inv_mix_columns: "length (inv_mix_columns block) = length block"
  by (induction block rule: inv_mix_columns.induct) simp_all

lemma length_16:
  "length (xs :: 'a list) = 16 \<Longrightarrow>
   \<exists>a0 a1 a2 a3 a4 a5 a6 a7 a8 a9 a10 a11 a12 a13 a14 a15.
     xs = [a0, a1, a2, a3, a4, a5, a6, a7, a8, a9, a10, a11, a12, a13, a14, a15]"
  by (simp add: eval_nat_numeral length_Suc_conv) blast

lemma inv_shift_rows_shift_rows:
  assumes "length block = 16"
  shows "inv_shift_rows (shift_rows block) = block"
proof -
  from length_16 [OF assms] obtain a0 a1 a2 a3 a4 a5 a6 a7 a8 a9 a10 a11 a12 a13 a14 a15
    where "block = [a0, a1, a2, a3, a4, a5, a6, a7, a8, a9, a10, a11, a12, a13, a14, a15]"
    by blast
  then show ?thesis
    by (simp add: inv_shift_rows_def shift_rows_def upt_rec)
qed

lemma length_shift_rows: "length (shift_rows block) = 16"
  by (simp add: shift_rows_def)
lemma length_inv_shift_rows: "length (inv_shift_rows block) = 16"
  by (simp add: inv_shift_rows_def)
lemma length_sub_block: "length (sub_block block) = length block"
  by (simp add: sub_block_def)
lemma length_inv_sub_block: "length (inv_sub_block block) = length block"
  by (simp add: inv_sub_block_def)
lemma length_add_round_key: "length (add_round_key block kschd round Nb) = 16"
  by (simp add: add_round_key_def)

lemma add_round_key_twice:
  assumes "length block = 16"
  shows "add_round_key (add_round_key block kschd round Nb) kschd round Nb = block"
proof -
  have "add_round_key (add_round_key block kschd round Nb) kschd round Nb = map (\<lambda>i. block ! i) [0..<16]"
    unfolding add_round_key_def by (rule map_cong [OF refl]) (simp add: xor.assoc)
  also have "\<dots> = block" using assms map_nth [of block] by simp
  finally show ?thesis .
qed

section \<open>The S-box tables are inverse to each other\<close>

lemma length_SBox: "length SBox = 256" by (simp add: SBox_def)
lemma length_InvSBox: "length InvSBox = 256" by (simp add: InvSBox_def)

lemma InvSBox_SBox_table: "map (\<lambda>y. InvSBox ! unat y) SBox = map of_nat [0..<256]"
  by (simp add: SBox_def InvSBox_def upt_rec)

lemma InvSBox_SBox: "InvSBox ! unat (SBox ! unat b) = (b::byte)"
proof -
  have n: "unat b < 256" using unsigned_less [of b, where 'a = nat] by simp
  have "map (\<lambda>y. InvSBox ! unat y) SBox ! unat b = map of_nat [0..<256] ! unat b"
    by (simp only: InvSBox_SBox_table)
  with n show ?thesis by (simp add: length_SBox del: upt_Suc)
qed

lemma inv_sub_block_sub_block: "inv_sub_block (sub_block block) = block"
  by (simp add: inv_sub_block_def sub_block_def o_def InvSBox_SBox)

section \<open>The inverse cipher undoes the forward cipher\<close>

lemma inverse_round_foward_round:
  assumes "length s = 16"
  shows "inv_mix_columns (add_round_key (inv_sub_block (inv_shift_rows
           (shift_rows (sub_block (add_round_key (mix_columns (shift_rows (sub_block s))) kschd r Nb)))))
           kschd r Nb) = shift_rows (sub_block s)"
  by (simp add: inv_shift_rows_shift_rows inv_sub_block_sub_block add_round_key_twice
        length_sub_block length_add_round_key length_mix_columns length_shift_rows
        inv_mix_columns_mix_columns)

lemma inverse_rounds_foward_rounds:
  "length s = 16 \<Longrightarrow> 1 \<le> r \<Longrightarrow> r \<le> Nr \<Longrightarrow>
   inverse_rounds (shift_rows (sub_block (foward_rounds s kschd Nb Nr r))) kschd Nb (Nr - 1)
     = inverse_rounds (shift_rows (sub_block s)) kschd Nb (r - 1)"
proof (induction s kschd Nb Nr r rule: foward_rounds.induct)
  case (1 block kschd Nb Nr round)
  show ?case
  proof (cases "round < Nr")
    case True
    let ?b = "add_round_key (mix_columns (shift_rows (sub_block block))) kschd round Nb"
    have "inverse_rounds (shift_rows (sub_block (foward_rounds block kschd Nb Nr round))) kschd Nb (Nr - 1)
          = inverse_rounds (shift_rows (sub_block (foward_rounds ?b kschd Nb Nr (Suc round)))) kschd Nb (Nr - 1)"
      using True by (subst foward_rounds.simps) simp
    also have "\<dots> = inverse_rounds (shift_rows (sub_block ?b)) kschd Nb (Suc round - 1)"
      using True "1.prems" by (intro "1.IH") (simp_all add: length_add_round_key)
    also have "\<dots> = inverse_rounds (shift_rows (sub_block block)) kschd Nb (round - 1)"
      using "1.prems" by (subst inverse_rounds.simps) (simp add: inverse_round_foward_round)
    finally show ?thesis .
  next
    case False
    with "1.prems" have "round = Nr" by simp
    then show ?thesis by (subst foward_rounds.simps) simp
  qed
qed

lemma length_foward_block: "length (foward_block block kschd Nb Nr) = 16"
  by (simp add: foward_block_def length_add_round_key)

lemma length_inverse_block: "length (inverse_block block kschd Nb Nr) = 16"
  by (simp add: inverse_block_def length_add_round_key)

lemma inverse_block_foward_block:
  assumes "length block = 16" "1 \<le> Nr"
  shows "inverse_block (foward_block block kschd Nb Nr) kschd Nb Nr = block"
proof -
  let ?a = "add_round_key block kschd 0 Nb"
  let ?f = "foward_rounds ?a kschd Nb Nr 1"
  have a: "inverse_rounds (shift_rows (sub_block ?f)) kschd Nb (Nr - 1)
           = shift_rows (sub_block ?a)"
    using assms inverse_rounds_foward_rounds [of ?a 1 Nr kschd Nb]
    by (simp add: length_add_round_key inverse_rounds.simps [of _ _ _ 0])
  have b: "add_round_key (add_round_key (shift_rows (sub_block ?f)) kschd Nr Nb) kschd Nr Nb
           = shift_rows (sub_block ?f)"
    by (rule add_round_key_twice) (rule length_shift_rows)
  have c: "inv_shift_rows (shift_rows (sub_block ?a)) = sub_block ?a"
    by (rule inv_shift_rows_shift_rows) (simp add: length_sub_block length_add_round_key)
  have "inverse_block (foward_block block kschd Nb Nr) kschd Nb Nr
        = add_round_key (inv_sub_block (inv_shift_rows
            (inverse_rounds (shift_rows (sub_block ?f)) kschd Nb (Nr - 1)))) kschd 0 Nb"
    unfolding inverse_block_def foward_block_def by (simp only: b)
  also have "\<dots> = add_round_key ?a kschd 0 Nb"
    by (simp only: a c inv_sub_block_sub_block)
  also have "\<dots> = block"
    using assms(1) by (rule add_round_key_twice)
  finally show ?thesis .
qed

lemma foward_block_inject:
  assumes "length x = 16" "length y = 16" "1 \<le> Nr"
    and "foward_block x kschd Nb Nr = foward_block y kschd Nb Nr"
  shows "x = y"
proof -
  have "x = inverse_block (foward_block x kschd Nb Nr) kschd Nb Nr"
    using assms(1,3) by (rule inverse_block_foward_block [symmetric])
  also have "\<dots> = inverse_block (foward_block y kschd Nb Nr) kschd Nb Nr"
    by (simp only: assms(4))
  also have "\<dots> = y"
    using assms(2,3) by (rule inverse_block_foward_block)
  finally show ?thesis .
qed

section \<open>\<^verbatim>\<open>uaes_xor_iv\<close> on the store\<close>

lemma xor_prefix_0: "xor_prefix h blk iv 0 = h"
proof -
  have "map (\<lambda>j. if snd blk \<le> j \<and> j < snd blk + 0
                  then h (fst blk) ! j XOR h (fst iv) ! (snd iv + (j - snd blk))
                  else h (fst blk) ! j) [0..<length (h (fst blk))] = h (fst blk)"
    by (rule nth_equalityI) auto
  then show ?thesis unfolding xor_prefix_def by simp
qed

lemma xor_byte_step:
  assumes "k < 16" "snd blk + 16 \<le> length (h (fst blk))" "snd iv + 16 \<le> length (h (fst iv))"
    and "separate blk iv"
  shows "xor_byte (xor_prefix h blk iv k) blk iv k = Some (xor_prefix h blk iv (Suc k))"
proof -
  obtain bo boff where blk: "blk = (bo, boff)" by (cases blk)
  obtain io ioff where iv: "iv = (io, ioff)" by (cases iv)
  let ?n = "length (h bo)"
  let ?F = "\<lambda>k j. if boff \<le> j \<and> j < boff + k
                  then h bo ! j XOR h io ! (ioff + (j - boff)) else h bo ! j"
  let ?X = "map (?F k) [0..<?n]"
  have b: "boff + 16 \<le> ?n" "ioff + 16 \<le> length (h io)"
    and s: "bo \<noteq> io \<or> ioff + 16 \<le> boff \<or> boff + 16 \<le> ioff"
    using assms by (simp_all add: blk iv separate_def)
  have src: "xor_prefix h blk iv k io ! (ioff + k) = h io ! (ioff + k)"
    using b s \<open>k < 16\<close> by (auto simp: blk iv xor_prefix_def)
  have upd: "?X[boff + k := ?X ! (boff + k) XOR h io ! (ioff + k)] = map (?F (Suc k)) [0..<?n]"
    using b \<open>k < 16\<close> by (intro nth_equalityI) (auto simp: nth_list_update)
  have len: "length (xor_prefix h blk iv k bo) = ?n" "length (xor_prefix h blk iv k io) = length (h io)"
    by (auto simp: blk iv xor_prefix_def)
  have "xor_byte (xor_prefix h blk iv k) blk iv k
        = Some ((xor_prefix h blk iv k)(bo := (xor_prefix h blk iv k bo)[boff + k :=
             xor_prefix h blk iv k bo ! (boff + k) XOR h io ! (ioff + k)]))"
    unfolding xor_byte_def using b \<open>k < 16\<close> src len by (simp add: blk iv)
  also have "\<dots> = Some (xor_prefix h blk iv (Suc k))"
    by (simp only: xor_prefix_def blk iv fst_conv snd_conv fun_upd_same fun_upd_upd upd)
  finally show ?thesis .
qed

lemma uaes_xor_iv_loop_prefix:
  assumes "snd blk + 16 \<le> length (h (fst blk))" "snd iv + 16 \<le> length (h (fst iv))"
    and "separate blk iv"
  shows "c \<le> 4 \<Longrightarrow>
         uaes_xor_iv_loop (xor_prefix h blk iv (4 * c)) blk iv c = Some (xor_prefix h blk iv 16)"
proof (induction "4 - c" arbitrary: c)
  case 0
  then have "c = 4" by simp
  then show ?case by (simp add: uaes_xor_iv_loop.simps)
next
  case (Suc n)
  then have c: "c < 4" by simp
  have s0: "xor_byte (xor_prefix h blk iv (4 * c)) blk iv (4 * c + 0)
              = Some (xor_prefix h blk iv (4 * c + 1))"
    using xor_byte_step [OF _ assms, of "4 * c"] c by simp
  have s1: "xor_byte (xor_prefix h blk iv (4 * c + 1)) blk iv (4 * c + 1)
              = Some (xor_prefix h blk iv (4 * c + 2))"
    using xor_byte_step [OF _ assms, of "4 * c + 1"] c by (simp add: eval_nat_numeral)
  have s2: "xor_byte (xor_prefix h blk iv (4 * c + 2)) blk iv (4 * c + 2)
              = Some (xor_prefix h blk iv (4 * c + 3))"
    using xor_byte_step [OF _ assms, of "4 * c + 2"] c by (simp add: eval_nat_numeral)
  have s3: "xor_byte (xor_prefix h blk iv (4 * c + 3)) blk iv (4 * c + 3)
              = Some (xor_prefix h blk iv (4 * Suc c))"
    using xor_byte_step [OF _ assms, of "4 * c + 3"] c by (simp add: eval_nat_numeral)
  have "uaes_xor_iv_loop (xor_prefix h blk iv (4 * c)) blk iv c
          = uaes_xor_iv_loop (xor_prefix h blk iv (4 * Suc c)) blk iv (Suc c)"
    by (subst uaes_xor_iv_loop.simps) (simp only: c if_True s0 s1 s2 s3 option.case)
  also have "\<dots> = Some (xor_prefix h blk iv 16)"
    using Suc.hyps(2) c by (intro Suc.hyps(1)) simp_all
  finally show ?case .
qed

lemma xor_prefix_16:
  assumes "snd blk + 16 \<le> length (h (fst blk))" "snd iv + 16 \<le> length (h (fst iv))"
  shows "xor_prefix h blk iv 16 =
         h(fst blk := take (snd blk) (h (fst blk)) @
                      xor_block (take 16 (drop (snd blk) (h (fst blk))))
                                (take 16 (drop (snd iv) (h (fst iv)))) @
                      drop (snd blk + 16) (h (fst blk)))"
proof -
  have "map (\<lambda>j. if snd blk \<le> j \<and> j < snd blk + 16
                  then h (fst blk) ! j XOR h (fst iv) ! (snd iv + (j - snd blk))
                  else h (fst blk) ! j) [0..<length (h (fst blk))]
        = take (snd blk) (h (fst blk)) @
          xor_block (take 16 (drop (snd blk) (h (fst blk))))
                    (take 16 (drop (snd iv) (h (fst iv)))) @
          drop (snd blk + 16) (h (fst blk))"
    using assms
    by (auto intro!: nth_equalityI simp: nth_append xor_block_def min_def)
  then show ?thesis by (simp add: xor_prefix_def)
qed

lemma uaes_xor_iv_eq:
  assumes "snd blk + 16 \<le> length (h (fst blk))" "snd iv + 16 \<le> length (h (fst iv))"
    and "separate blk iv"
  shows "uaes_xor_iv h blk iv =
         Some (h(fst blk := take (snd blk) (h (fst blk)) @
                      xor_block (take 16 (drop (snd blk) (h (fst blk))))
                                (take 16 (drop (snd iv) (h (fst iv)))) @
                      drop (snd blk + 16) (h (fst blk))))"
  using uaes_xor_iv_loop_prefix [OF assms, of 0]
  by (simp add: uaes_xor_iv_def xor_prefix_0 xor_prefix_16 [OF assms(1,2)])

section \<open>Blocks of a buffer and the block ciphers on the store\<close>

lemma length_get_block: "16 * idx + 16 \<le> length buf \<Longrightarrow> length (get_block buf idx) = 16"
  by (simp add: get_block_def)

lemma length_put_block:
  "16 * idx + 16 \<le> length buf \<Longrightarrow> length blk = 16 \<Longrightarrow> length (put_block buf idx blk) = length buf"
  by (simp add: put_block_def)

lemma get_block_put_block_same:
  "16 * idx + 16 \<le> length buf \<Longrightarrow> length blk = 16 \<Longrightarrow> get_block (put_block buf idx blk) idx = blk"
  by (simp add: get_block_def put_block_def)

lemma get_block_put_block_below:
  assumes "j < idx" "16 * idx + 16 \<le> length buf"
  shows "get_block (put_block buf idx blk) j = get_block buf j"
proof -
  have "16 * j + 16 \<le> 16 * idx" using assms by simp
  then obtain d where d: "16 * idx = 16 * j + (16 + d)"
    by (metis le_Suc_ex add.assoc)
  have "drop (16 * j) (take (16 * idx) buf) = take (16 + d) (drop (16 * j) buf)"
    unfolding d by (simp add: drop_take)
  moreover have "16 \<le> length (take (16 + d) (drop (16 * j) buf))"
    using assms(2) d by simp
  ultimately show ?thesis
    using assms(2) d by (simp add: get_block_def put_block_def)
qed

lemma get_block_put_block_above:
  assumes "idx < j" "16 * idx + 16 \<le> length buf" "length blk = 16"
  shows "get_block (put_block buf idx blk) j = get_block buf j"
proof -
  have "16 * idx + 16 \<le> 16 * j" using assms by simp
  then obtain d where d: "16 * j = 16 * idx + 16 + d" by (metis le_Suc_ex)
  show ?thesis using assms by (simp add: get_block_def put_block_def d add.commute)
qed

lemma put_block_put_block:
  "16 * idx + 16 \<le> length buf \<Longrightarrow> length x = 16 \<Longrightarrow>
   put_block (put_block buf idx x) idx y = put_block buf idx y"
  by (simp add: put_block_def)

lemma take_put_block:
  "16 * idx + 16 \<le> length buf \<Longrightarrow> length blk = 16 \<Longrightarrow>
   take (16 * Suc idx) (put_block buf idx blk) = take (16 * idx) buf @ blk"
  by (simp add: put_block_def)

lemma take_put_block_below:
  "16 * idx + 16 \<le> length buf \<Longrightarrow> m \<le> 16 * idx \<Longrightarrow>
   take m (put_block buf idx blk) = take m buf"
  by (simp add: put_block_def min_def)

lemma drop_put_block:
  "16 * idx + 16 \<le> length buf \<Longrightarrow> length blk = 16 \<Longrightarrow>
   drop (16 * idx) (put_block buf idx blk) = blk @ drop (16 * idx + 16) buf"
  by (simp add: put_block_def)

lemma drop_put_block_above:
  assumes "16 * idx + 16 \<le> length buf" "length blk = 16" "16 * idx + 16 \<le> m"
  shows "drop m (put_block buf idx blk) = drop m buf"
proof -
  obtain d where d: "m = 16 * idx + 16 + d" using assms(3) by (metis le_Suc_ex)
  show ?thesis using assms(1,2) by (simp add: put_block_def d add.commute)
qed

lemma uaes_foward_cipher_eq:
  assumes "snd buf + 16 \<le> length (h (fst buf))"
  shows "uaes_foward_cipher h buf kschd Nk Nb Nr =
         Some (h(fst buf := take (snd buf) (h (fst buf)) @
                  foward_block (take 16 (drop (snd buf) (h (fst buf)))) kschd Nb Nr @
                  drop (snd buf + 16) (h (fst buf))))"
  using assms
  by (simp add: uaes_foward_cipher_def load_def store_def uAES_BLOCK_SIZE_def length_foward_block)

lemma uaes_inverse_cipher_eq:
  assumes "snd buf + 16 \<le> length (h (fst buf))"
  shows "uaes_inverse_cipher h buf kschd Nk Nb Nr =
         Some (h(fst buf := take (snd buf) (h (fst buf)) @
                  inverse_block (take 16 (drop (snd buf) (h (fst buf)))) kschd Nb Nr @
                  drop (snd buf + 16) (h (fst buf))))"
  using assms
  by (simp add: uaes_inverse_cipher_def load_def store_def uAES_BLOCK_SIZE_def length_inverse_block)

lemma foward_at:
  assumes "16 * idx + 16 \<le> length (h p)"
  shows "uaes_foward_cipher h (p, 16 * idx) kschd Nk Nb Nr =
         Some (h(p := put_block (h p) idx (foward_block (get_block (h p) idx) kschd Nb Nr)))"
  using uaes_foward_cipher_eq [of "(p, 16 * idx)" h] assms
  by (simp add: put_block_def get_block_def)

lemma inverse_at:
  assumes "16 * idx + 16 \<le> length (h p)"
  shows "uaes_inverse_cipher h (p, 16 * idx) kschd Nk Nb Nr =
         Some (h(p := put_block (h p) idx (inverse_block (get_block (h p) idx) kschd Nb Nr)))"
  using uaes_inverse_cipher_eq [of "(p, 16 * idx)" h] assms
  by (simp add: put_block_def get_block_def)

lemma xor_at_prev:
  assumes "1 \<le> idx" "16 * idx + 16 \<le> length (h p)"
  shows "uaes_xor_iv h (p, 16 * idx) (p, 16 * (idx - 1)) =
         Some (h(p := put_block (h p) idx
                        (xor_block (get_block (h p) idx) (get_block (h p) (idx - 1)))))"
proof -
  have "separate (p, 16 * idx) (p, 16 * (idx - 1))"
    using assms by (cases idx) (simp_all add: separate_def)
  then show ?thesis
    using uaes_xor_iv_eq [of "(p, 16 * idx)" h "(p, 16 * (idx - 1))"] assms
    by (simp add: put_block_def get_block_def)
qed

lemma xor_at_iv:
  assumes "v \<noteq> p" "16 \<le> length (h v)" "16 * idx + 16 \<le> length (h p)"
  shows "uaes_xor_iv h (p, 16 * idx) (v, 0) =
         Some (h(p := put_block (h p) idx (xor_block (get_block (h p) idx) (take 16 (h v)))))"
proof -
  have "separate (p, 16 * idx) (v, 0)"
    using assms by (simp add: separate_def)
  then show ?thesis
    using uaes_xor_iv_eq [of "(p, 16 * idx)" h "(v, 0)"] assms
    by (simp add: put_block_def get_block_def)
qed

lemma length_xor_block: "length (xor_block a b) = min (length a) (length b)"
  by (simp add: xor_block_def)

lemma xor_block_twice:
  "length a \<le> length b \<Longrightarrow> xor_block (xor_block a b) b = a"
  unfolding xor_block_def
  by (induction a b rule: list_induct2') (simp_all add: xor.assoc)

section \<open>The block walks\<close>

lemma ecb_encryption_loop_eq:
  "idx \<le> n \<Longrightarrow> 16 * n \<le> length (h p) \<Longrightarrow>
   ecb_encryption_loop h p kschd Nk Nb Nr n idx =
     Some (h(p := take (16 * idx) (h p) @
                  concat (map (\<lambda>j. foward_block (get_block (h p) j) kschd Nb Nr) [idx..<n]) @
                  drop (16 * n) (h p)))"
proof (induction h p kschd Nk Nb Nr n idx rule: ecb_encryption_loop.induct)
  case (1 h p kschd Nk Nb Nr n idx)
  show ?case
  proof (cases "idx < n")
    case False
    with "1.prems" have "idx = n" by simp
    then show ?thesis by (subst ecb_encryption_loop.simps) simp
  next
    case True
    let ?B = "h p"
    let ?c = "foward_block (get_block ?B idx) kschd Nb Nr"
    let ?h' = "h(p := put_block ?B idx ?c)"
    have bound: "16 * idx + 16 \<le> length ?B" using True "1.prems" by simp
    have step: "uaes_foward_cipher h (p, 16 * idx) kschd Nk Nb Nr = Some ?h'"
      using bound by (rule foward_at)
    have len: "length (put_block ?B idx ?c) = length ?B"
      using bound by (simp add: length_put_block length_foward_block)
    have ih: "ecb_encryption_loop ?h' p kschd Nk Nb Nr n (Suc idx) =
        Some (?h'(p := take (16 * Suc idx) (?h' p) @
                concat (map (\<lambda>j. foward_block (get_block (?h' p) j) kschd Nb Nr) [Suc idx..<n]) @
                drop (16 * n) (?h' p)))"
      using True "1.prems" len by (intro "1.IH" [OF True step]) simp_all
    have m: "map (\<lambda>j. foward_block (get_block (put_block ?B idx ?c) j) kschd Nb Nr) [Suc idx..<n]
             = map (\<lambda>j. foward_block (get_block ?B j) kschd Nb Nr) [Suc idx..<n]"
      using bound by (intro map_cong refl) (simp add: get_block_put_block_above length_foward_block)
    have d: "drop (16 * n) (put_block ?B idx ?c) = drop (16 * n) ?B"
      using bound True by (intro drop_put_block_above) (simp_all add: length_foward_block)
    have t: "take (16 * Suc idx) (put_block ?B idx ?c) = take (16 * idx) ?B @ ?c"
      using bound by (intro take_put_block) (simp_all add: length_foward_block)
    have "ecb_encryption_loop h p kschd Nk Nb Nr n idx
          = ecb_encryption_loop ?h' p kschd Nk Nb Nr n (Suc idx)"
      using True step by (subst ecb_encryption_loop.simps) simp
    also have "\<dots> = Some (h(p := (take (16 * idx) ?B @ ?c) @
                concat (map (\<lambda>j. foward_block (get_block ?B j) kschd Nb Nr) [Suc idx..<n]) @
                drop (16 * n) ?B))"
      unfolding ih by (simp only: fun_upd_same fun_upd_upd m d t)
    also have "\<dots> = Some (h(p := take (16 * idx) ?B @
                concat (map (\<lambda>j. foward_block (get_block ?B j) kschd Nb Nr) [idx..<n]) @
                drop (16 * n) ?B))"
      using True by (simp add: upt_conv_Cons)
    finally show ?thesis .
  qed
qed

lemma ecb_decryption_loop_eq:
  "idx \<le> n \<Longrightarrow> 16 * n \<le> length (h p) \<Longrightarrow>
   ecb_decryption_loop h p kschd Nk Nb Nr n idx =
     Some (h(p := take (16 * idx) (h p) @
                  concat (map (\<lambda>j. inverse_block (get_block (h p) j) kschd Nb Nr) [idx..<n]) @
                  drop (16 * n) (h p)))"
proof (induction h p kschd Nk Nb Nr n idx rule: ecb_decryption_loop.induct)
  case (1 h p kschd Nk Nb Nr n idx)
  show ?case
  proof (cases "idx < n")
    case False
    with "1.prems" have "idx = n" by simp
    then show ?thesis by (subst ecb_decryption_loop.simps) simp
  next
    case True
    let ?B = "h p"
    let ?c = "inverse_block (get_block ?B idx) kschd Nb Nr"
    let ?h' = "h(p := put_block ?B idx ?c)"
    have bound: "16 * idx + 16 \<le> length ?B" using True "1.prems" by simp
    have step: "uaes_inverse_cipher h (p, 16 * idx) kschd Nk Nb Nr = Some ?h'"
      using bound by (rule inverse_at)
    have len: "length (put_block ?B idx ?c) = length ?B"
      using bound by (simp add: length_put_block length_inverse_block)
    have ih: "ecb_decryption_loop ?h' p kschd Nk Nb Nr n (Suc idx) =
        Some (?h'(p := take (16 * Suc idx) (?h' p) @
                concat (map (\<lambda>j. inverse_block (get_block (?h' p) j) kschd Nb Nr) [Suc idx..<n]) @
                drop (16 * n) (?h' p)))"
      using True "1.prems" len by (intro "1.IH" [OF True step]) simp_all
    have m: "map (\<lambda>j. inverse_block (get_block (put_block ?B idx ?c) j) kschd Nb Nr) [Suc idx..<n]
             = map (\<lambda>j. inverse_block (get_block ?B j) kschd Nb Nr) [Suc idx..<n]"
      using bound by (intro map_cong refl) (simp add: get_block_put_block_above length_inverse_block)
    have d: "drop (16 * n) (put_block ?B idx ?c) = drop (16 * n) ?B"
      using bound True by (intro drop_put_block_above) (simp_all add: length_inverse_block)
    have t: "take (16 * Suc idx) (put_block ?B idx ?c) = take (16 * idx) ?B @ ?c"
      using bound by (intro take_put_block) (simp_all add: length_inverse_block)
    have "ecb_decryption_loop h p kschd Nk Nb Nr n idx
          = ecb_decryption_loop ?h' p kschd Nk Nb Nr n (Suc idx)"
      using True step by (subst ecb_decryption_loop.simps) simp
    also have "\<dots> = Some (h(p := (take (16 * idx) ?B @ ?c) @
                concat (map (\<lambda>j. inverse_block (get_block ?B j) kschd Nb Nr) [Suc idx..<n]) @
                drop (16 * n) ?B))"
      unfolding ih by (simp only: fun_upd_same fun_upd_upd m d t)
    also have "\<dots> = Some (h(p := take (16 * idx) ?B @
                concat (map (\<lambda>j. inverse_block (get_block ?B j) kschd Nb Nr) [idx..<n]) @
                drop (16 * n) ?B))"
      using True by (simp add: upt_conv_Cons)
    finally show ?thesis .
  qed
qed

lemma cbc_encryption_loop_eq:
  "1 \<le> idx \<Longrightarrow> idx \<le> n \<Longrightarrow> 16 * n \<le> length (h p) \<Longrightarrow>
   cbc_encryption_loop h p kschd Nk Nb Nr n idx =
     Some (h(p := take (16 * idx) (h p) @
                  concat (cbc_encrypt_blocks (\<lambda>b. foward_block b kschd Nb Nr) (get_block (h p) (idx - 1))
                            (map (get_block (h p)) [idx..<n])) @
                  drop (16 * n) (h p)))"
proof (induction h p kschd Nk Nb Nr n idx rule: cbc_encryption_loop.induct)
  case (1 h p kschd Nk Nb Nr n idx)
  show ?case
  proof (cases "idx < n")
    case False
    with "1.prems" have "idx = n" by simp
    then show ?thesis by (subst cbc_encryption_loop.simps) simp
  next
    case True
    let ?B = "h p"
    let ?E = "\<lambda>b. foward_block b kschd Nb Nr"
    let ?x = "xor_block (get_block ?B idx) (get_block ?B (idx - 1))"
    let ?c = "?E ?x"
    let ?h0 = "h(p := put_block ?B idx ?x)"
    let ?h' = "h(p := put_block ?B idx ?c)"
    have bound: "16 * idx + 16 \<le> length ?B" using True "1.prems" by simp
    have bound1: "16 * (idx - 1) + 16 \<le> length ?B" using bound by simp
    have lx: "length ?x = 16"
      using bound bound1 by (simp add: length_xor_block length_get_block)
    have step0: "uaes_xor_iv h (p, 16 * idx) (p, 16 * (idx - 1)) = Some ?h0"
      using "1.prems"(1) bound by (rule xor_at_prev)
    have "uaes_foward_cipher ?h0 (p, 16 * idx) kschd Nk Nb Nr
          = Some (?h0(p := put_block (?h0 p) idx (?E (get_block (?h0 p) idx))))"
      using bound lx by (intro foward_at) (simp add: length_put_block)
    then have step1: "uaes_foward_cipher ?h0 (p, 16 * idx) kschd Nk Nb Nr = Some ?h'"
      using bound lx by (simp add: get_block_put_block_same put_block_put_block)
    have len: "length (put_block ?B idx ?c) = length ?B"
      using bound by (simp add: length_put_block length_foward_block)
    have ih: "cbc_encryption_loop ?h' p kschd Nk Nb Nr n (Suc idx) =
        Some (?h'(p := take (16 * Suc idx) (?h' p) @
                concat (cbc_encrypt_blocks ?E (get_block (?h' p) (Suc idx - 1))
                          (map (get_block (?h' p)) [Suc idx..<n])) @
                drop (16 * n) (?h' p)))"
      using True "1.prems" len by (intro "1.IH" [OF True step0 step1]) simp_all
    have m: "map (get_block (put_block ?B idx ?c)) [Suc idx..<n] = map (get_block ?B) [Suc idx..<n]"
      using bound by (intro map_cong refl) (simp add: get_block_put_block_above length_foward_block)
    have g: "get_block (put_block ?B idx ?c) idx = ?c"
      using bound by (simp add: get_block_put_block_same length_foward_block)
    have d: "drop (16 * n) (put_block ?B idx ?c) = drop (16 * n) ?B"
      using bound True by (intro drop_put_block_above) (simp_all add: length_foward_block)
    have t: "take (16 * Suc idx) (put_block ?B idx ?c) = take (16 * idx) ?B @ ?c"
      using bound by (intro take_put_block) (simp_all add: length_foward_block)
    have "cbc_encryption_loop h p kschd Nk Nb Nr n idx
          = cbc_encryption_loop ?h' p kschd Nk Nb Nr n (Suc idx)"
      using True step0 step1 by (subst cbc_encryption_loop.simps) simp
    also have "\<dots> = Some (h(p := (take (16 * idx) ?B @ ?c) @
                concat (cbc_encrypt_blocks ?E ?c (map (get_block ?B) [Suc idx..<n])) @
                drop (16 * n) ?B))"
      unfolding ih by (simp only: fun_upd_same fun_upd_upd m d t g diff_Suc_1)
    also have "\<dots> = Some (h(p := take (16 * idx) ?B @
                concat (cbc_encrypt_blocks ?E (get_block ?B (idx - 1)) (map (get_block ?B) [idx..<n])) @
                drop (16 * n) ?B))"
      using True by (simp add: upt_conv_Cons)
    finally show ?thesis .
  qed
qed

lemma cbc_decryption_loop_eq:
  "16 * idx + 16 \<le> length (h p) \<Longrightarrow>
   cbc_decryption_loop h p kschd Nk Nb Nr idx =
     Some (h(p := take 16 (h p) @
                  concat (map (\<lambda>j. xor_block (inverse_block (get_block (h p) j) kschd Nb Nr)
                                             (get_block (h p) (j - 1))) [1..<Suc idx]) @
                  drop (16 * Suc idx) (h p)))"
proof (induction h p kschd Nk Nb Nr idx rule: cbc_decryption_loop.induct)
  case (1 h p kschd Nk Nb Nr idx)
  show ?case
  proof (cases "0 < idx")
    case False
    then show ?thesis by (subst cbc_decryption_loop.simps) simp
  next
    case True
    let ?B = "h p"
    let ?D = "\<lambda>b. inverse_block b kschd Nb Nr"
    let ?g = "\<lambda>B j. xor_block (?D (get_block B j)) (get_block B (j - 1))"
    let ?y = "?D (get_block ?B idx)"
    let ?x = "?g ?B idx"
    let ?h0 = "h(p := put_block ?B idx ?y)"
    let ?h' = "h(p := put_block ?B idx ?x)"
    have bound: "16 * idx + 16 \<le> length ?B" using "1.prems" by simp
    have bound1: "16 * (idx - 1) + 16 \<le> length ?B" using bound by simp
    have ly: "length ?y = 16" by (rule length_inverse_block)
    have lx: "length ?x = 16"
      using bound1 by (simp add: length_xor_block length_get_block length_inverse_block)
    have step0: "uaes_inverse_cipher h (p, 16 * idx) kschd Nk Nb Nr = Some ?h0"
      using bound by (rule inverse_at)
    have "uaes_xor_iv ?h0 (p, 16 * idx) (p, 16 * (idx - 1))
          = Some (?h0(p := put_block (?h0 p) idx
                     (xor_block (get_block (?h0 p) idx) (get_block (?h0 p) (idx - 1)))))"
      using True bound ly by (intro xor_at_prev) (simp_all add: length_put_block)
    then have step1: "uaes_xor_iv ?h0 (p, 16 * idx) (p, 16 * (idx - 1)) = Some ?h'"
      using True bound ly
      by (simp add: get_block_put_block_same put_block_put_block get_block_put_block_below)
    have len: "length (put_block ?B idx ?x) = length ?B"
      using bound lx by (simp add: length_put_block)
    have ih: "cbc_decryption_loop ?h' p kschd Nk Nb Nr (idx - 1) =
        Some (?h'(p := take 16 (?h' p) @
                concat (map (?g (?h' p)) [1..<Suc (idx - 1)]) @
                drop (16 * Suc (idx - 1)) (?h' p)))"
      using bound1 len by (intro "1.IH" [OF True step0 step1]) simp
    have s: "Suc (idx - 1) = idx" using True by simp
    have m: "map (?g (put_block ?B idx ?x)) [1..<idx] = map (?g ?B) [1..<idx]"
    proof (intro map_cong refl)
      fix j assume "j \<in> set [1..<idx]"
      then have "j < idx" "j - 1 < idx" by auto
      then show "?g (put_block ?B idx ?x) j = ?g ?B j"
        using bound by (simp only: get_block_put_block_below)
    qed
    have d: "drop (16 * idx) (put_block ?B idx ?x) = ?x @ drop (16 * idx + 16) ?B"
      using bound lx by (rule drop_put_block)
    have t: "take 16 (put_block ?B idx ?x) = take 16 ?B"
      using bound True by (intro take_put_block_below) simp_all
    have "cbc_decryption_loop h p kschd Nk Nb Nr idx
          = cbc_decryption_loop ?h' p kschd Nk Nb Nr (idx - 1)"
      using True step0 step1 by (subst cbc_decryption_loop.simps) simp
    also have "\<dots> = Some (h(p := take 16 ?B @ concat (map (?g ?B) [1..<idx]) @
                ?x @ drop (16 * idx + 16) ?B))"
      unfolding ih s by (simp only: fun_upd_same fun_upd_upd m d t)
    also have "\<dots> = Some (h(p := take 16 ?B @ concat (map (?g ?B) [1..<Suc idx]) @
                drop (16 * Suc idx) ?B))"
      using True by (simp add: add.commute)
    finally show ?thesis .
  qed
qed

section \<open>Variants, schedules and lists of blocks\<close>

lemma block_offset_eq: "block_offset sz = (sz + 15) div 16"
proof -
  have "sz AND mask 4 = sz mod 2 ^ 4"
    by (simp add: take_bit_eq_mask [symmetric] take_bit_eq_mod)
  moreover have "mask 4 = (15::nat)" by (simp add: mask_eq_exp_minus_1)
  ultimately have m: "sz AND 15 = sz mod 16" by simp
  have z: "sz div 16 = (sz + 15) div 16" if "sz mod 16 = 0"
  proof -
    from that obtain q where q: "sz = 16 * q" by (auto simp: mod_eq_0_iff_dvd)
    show ?thesis unfolding q by simp
  qed
  show ?thesis
    by (simp add: block_offset_def uAES_BLOCK_ALIGN_MASK_def uAES_BLOCK_ALIGN_def uAES_ALIGN_def
          m drop_bit_eq_div z)
qed

lemma block_offset_pos: "0 < sz \<Longrightarrow> 1 \<le> block_offset sz"
  by (simp add: block_offset_eq)

lemma mode_cases:
  assumes "aes_mode < uAESRGE"
  obtains "aes_mode = 0" "Nk_of aes_mode = 4" "Nr_of aes_mode = 10"
        | "aes_mode = 1" "Nk_of aes_mode = 6" "Nr_of aes_mode = 12"
        | "aes_mode = 2" "Nk_of aes_mode = 8" "Nr_of aes_mode = 14"
proof -
  from assms have "aes_mode = 0 \<or> aes_mode = 1 \<or> aes_mode = 2"
    by (auto simp: uAESRGE_def)
  then show ?thesis
    using that by (auto simp: Nk_of_def Nr_of_def uAES128_def uAES192_def uAES256_def)
qed

lemma Nr_of_pos: "aes_mode < uAESRGE \<Longrightarrow> 1 \<le> Nr_of aes_mode"
  by (erule mode_cases) simp_all

lemma key_expansion_Some:
  assumes "0 < Nk" "4 * Nk \<le> length key" "Nk \<le> ksize" "4 * (Nr + 1) \<le> ksize"
  shows "key_expansion key (replicate ksize 0) Nk (4 * (Nr + 1)) = Some (key_schedule key ksize Nk Nr)"
  using assms by (simp add: key_expansion_def key_schedule_def)

lemma key_expansion_mode:
  assumes "aes_mode < uAESRGE" "4 * Nk_of aes_mode \<le> length key"
  shows "key_expansion key (replicate uAES_MAX_KSCHD_SIZE 0) (Nk_of aes_mode)
           (4 * (Nr_of aes_mode + 1))
         = Some (key_schedule key uAES_MAX_KSCHD_SIZE (Nk_of aes_mode) (Nr_of aes_mode))"
  using assms(1)
proof (cases rule: mode_cases)
  case 1 then show ?thesis using assms(2)
    by (intro key_expansion_Some) (simp_all add: uAES_MAX_KSCHD_SIZE_def)
next
  case 2 then show ?thesis using assms(2)
    by (intro key_expansion_Some) (simp_all add: uAES_MAX_KSCHD_SIZE_def)
next
  case 3 then show ?thesis using assms(2)
    by (intro key_expansion_Some) (simp_all add: uAES_MAX_KSCHD_SIZE_def)
qed


lemma length_encrypt_block: "length (encrypt_block key aes_mode block) = 16"
  by (simp add: encrypt_block_def length_foward_block)

lemma length_decrypt_block: "length (decrypt_block key aes_mode block) = 16"
  by (simp add: decrypt_block_def length_inverse_block)

lemma encrypt_block_inject:
  "aes_mode < uAESRGE \<Longrightarrow> length x = 16 \<Longrightarrow> length y = 16 \<Longrightarrow>
   encrypt_block key aes_mode x = encrypt_block key aes_mode y \<Longrightarrow> x = y"
  unfolding encrypt_block_def by (rule foward_block_inject [OF _ _ Nr_of_pos])


lemma length_blocks: "length (blocks buf n) = n"
  by (simp add: blocks_def)

lemma nth_blocks: "j < n \<Longrightarrow> blocks buf n ! j = get_block buf j"
  by (simp add: blocks_def)

lemma blocks_lengths: "16 * n \<le> length buf \<Longrightarrow> \<forall>b \<in> set (blocks buf n). length b = 16"
  by (auto simp: blocks_def get_block_def)



lemma length_concat_16: "\<forall>c \<in> set cs. length c = 16 \<Longrightarrow> length (concat cs) = 16 * length cs"
  by (induction cs) simp_all

lemma get_block_concat:
  "\<forall>c \<in> set cs. length c = 16 \<Longrightarrow> j < length cs \<Longrightarrow> get_block (concat cs @ rest) j = cs ! j"
proof (induction cs arbitrary: j)
  case Nil
  then show ?case by simp
next
  case (Cons c cs)
  show ?case
  proof (cases j)
    case 0
    with Cons.prems show ?thesis by (simp add: get_block_def)
  next
    case (Suc i)
    have "get_block (concat (c # cs) @ rest) (Suc i) = get_block (concat cs @ rest) i"
      using Cons.prems by (simp add: get_block_def)
    with Cons Suc show ?thesis by simp
  qed
qed


lemma drop_replace_blocks:
  assumes "\<forall>c \<in> set cs. length c = 16" "length cs = n"
  shows "drop (16 * n) (replace_blocks buf n cs) = drop (16 * n) buf"
  using assms by (simp add: replace_blocks_def length_concat_16)

lemma length_replace_blocks:
  assumes "\<forall>c \<in> set cs. length c = 16" "length cs = n" "16 * n \<le> length buf"
  shows "length (replace_blocks buf n cs) = length buf"
  using assms by (simp add: replace_blocks_def length_concat_16)


section \<open>What the entry points compute\<close>

lemma uaes_ecb_encryption_eq:
  assumes "0 < sz" "sz \<le> 64" "aes_mode < uAESRGE"
    and "4 * Nk_of aes_mode \<le> length (h k)" "16 * block_offset sz \<le> length (h p)"
  shows "uaes_ecb_encryption h (Some p) sz (Some k) aes_mode =
         Some (0, h(p := replace_blocks (h p) (block_offset sz)
                          (map (encrypt_block (h k) aes_mode) (blocks (h p) (block_offset sz)))))"
proof -
  let ?ks = "key_schedule (h k) uAES_MAX_KSCHD_SIZE (Nk_of aes_mode) (Nr_of aes_mode)"
  have loop: "ecb_encryption_loop h p ?ks (Nk_of aes_mode) 4 (Nr_of aes_mode) (block_offset sz) 0
        = Some (h(p := replace_blocks (h p) (block_offset sz)
                          (map (encrypt_block (h k) aes_mode) (blocks (h p) (block_offset sz)))))"
    using ecb_encryption_loop_eq [of 0 "block_offset sz" h p ?ks "Nk_of aes_mode" 4 "Nr_of aes_mode"]
      assms(5)
    by (simp add: replace_blocks_def blocks_def encrypt_block_def o_def)
  have cond: "Some k \<noteq> None \<and> Some p \<noteq> None \<and>
        0 < sz \<and> uAES_MAX_INPUT_SIZE \<ge> sz \<and> uAESRGE > aes_mode"
    using assms(1-3) by (simp add: uAES_MAX_INPUT_SIZE_def)
  show ?thesis
    by (simp only: uaes_ecb_encryption_def cond simp_thms if_True option.sel option.case
          key_expansion_mode [OF assms(3,4)] loop)
qed

lemma uaes_ecb_decryption_eq:
  assumes "0 < sz" "sz \<le> 64" "aes_mode < uAESRGE"
    and "4 * Nk_of aes_mode \<le> length (h k)" "16 * block_offset sz \<le> length (h p)"
  shows "uaes_ecb_decryption h (Some p) sz (Some k) aes_mode =
         Some (0, h(p := replace_blocks (h p) (block_offset sz)
                          (map (decrypt_block (h k) aes_mode) (blocks (h p) (block_offset sz)))))"
proof -
  let ?ks = "key_schedule (h k) uAES_MAX_KSCHD_SIZE (Nk_of aes_mode) (Nr_of aes_mode)"
  have loop: "ecb_decryption_loop h p ?ks (Nk_of aes_mode) 4 (Nr_of aes_mode) (block_offset sz) 0
        = Some (h(p := replace_blocks (h p) (block_offset sz)
                          (map (decrypt_block (h k) aes_mode) (blocks (h p) (block_offset sz)))))"
    using ecb_decryption_loop_eq [of 0 "block_offset sz" h p ?ks "Nk_of aes_mode" 4 "Nr_of aes_mode"]
      assms(5)
    by (simp add: replace_blocks_def blocks_def decrypt_block_def o_def)
  have cond: "Some k \<noteq> None \<and> Some p \<noteq> None \<and>
        0 < sz \<and> uAES_MAX_INPUT_SIZE \<ge> sz \<and> uAESRGE > aes_mode"
    using assms(1-3) by (simp add: uAES_MAX_INPUT_SIZE_def)
  show ?thesis
    by (simp only: uaes_ecb_decryption_def cond simp_thms if_True option.sel option.case
          key_expansion_mode [OF assms(3,4)] loop)
qed

lemma uaes_cbc_encryption_eq:
  assumes "0 < sz" "sz \<le> 64" "aes_mode < uAESRGE"
    and "4 * Nk_of aes_mode \<le> length (h k)" "16 * block_offset sz \<le> length (h p)"
    and "16 \<le> length (h v)" "v \<noteq> p"
  shows "uaes_cbc_encryption h (Some p) sz (Some k) (Some v) aes_mode =
         Some (0, h(p := replace_blocks (h p) (block_offset sz)
                          (cbc_encrypt_blocks (encrypt_block (h k) aes_mode) (take 16 (h v))
                             (blocks (h p) (block_offset sz)))))"
proof -
  let ?ks = "key_schedule (h k) uAES_MAX_KSCHD_SIZE (Nk_of aes_mode) (Nr_of aes_mode)"
  let ?n = "block_offset sz"
  let ?B = "h p"
  let ?E = "encrypt_block (h k) aes_mode"
  let ?x = "xor_block (get_block ?B 0) (take 16 (h v))"
  let ?h0 = "h(p := put_block ?B 0 ?x)"
  let ?h1 = "h(p := put_block ?B 0 (?E ?x))"
  have n: "1 \<le> ?n" using assms(1) by (rule block_offset_pos)
  have bound: "16 * 0 + 16 \<le> length ?B" using n assms(5) by simp
  have E: "?E = (\<lambda>b. foward_block b ?ks 4 (Nr_of aes_mode))"
    by (rule ext) (simp add: encrypt_block_def)
  have lx: "length ?x = 16"
    using bound assms(6) by (simp add: length_xor_block length_get_block)
  have s0: "uaes_xor_iv h (p, 0) (v, 0) = Some ?h0"
    using xor_at_iv [OF assms(7,6) bound] by simp
  have "uaes_foward_cipher ?h0 (p, 16 * 0) ?ks (Nk_of aes_mode) 4 (Nr_of aes_mode)
        = Some (?h0(p := put_block (?h0 p) 0
                   (foward_block (get_block (?h0 p) 0) ?ks 4 (Nr_of aes_mode))))"
    using bound lx by (intro foward_at) (simp add: length_put_block)
  then have s1: "uaes_foward_cipher ?h0 (p, 16 * 0) ?ks (Nk_of aes_mode) 4 (Nr_of aes_mode) = Some ?h1"
    using bound lx
    by (simp add: get_block_put_block_same put_block_put_block encrypt_block_def)
  have len: "length (put_block ?B 0 (?E ?x)) = length ?B"
    using bound by (simp add: length_put_block length_encrypt_block)
  have "cbc_encryption_loop ?h1 p ?ks (Nk_of aes_mode) 4 (Nr_of aes_mode) ?n 1
        = Some (?h1(p := take (16 * 1) (?h1 p) @
             concat (cbc_encrypt_blocks (\<lambda>b. foward_block b ?ks 4 (Nr_of aes_mode))
                       (get_block (?h1 p) (1 - 1)) (map (get_block (?h1 p)) [1..<?n])) @
             drop (16 * ?n) (?h1 p)))"
    using n assms(5) len by (intro cbc_encryption_loop_eq) simp_all
  moreover have "map (get_block (put_block ?B 0 (?E ?x))) [1..<?n] = map (get_block ?B) [1..<?n]"
    using bound
    by (intro map_cong refl) (simp add: get_block_put_block_above length_encrypt_block)
  moreover have "get_block (put_block ?B 0 (?E ?x)) 0 = ?E ?x"
    using bound by (simp add: get_block_put_block_same length_encrypt_block)
  moreover have "drop (16 * ?n) (put_block ?B 0 (?E ?x)) = drop (16 * ?n) ?B"
    using bound n by (intro drop_put_block_above) (simp_all add: length_encrypt_block)
  moreover have "take (16 * 1) (put_block ?B 0 (?E ?x)) = ?E ?x"
    using take_put_block [of 0 ?B "?E ?x"] bound by (simp add: length_encrypt_block)
  moreover have "blocks ?B ?n = get_block ?B 0 # map (get_block ?B) [1..<?n]"
    using n by (simp add: blocks_def upt_conv_Cons)
  ultimately have loop:
    "cbc_encryption_loop ?h1 p ?ks (Nk_of aes_mode) 4 (Nr_of aes_mode) ?n 1
       = Some (h(p := replace_blocks ?B ?n
                   (cbc_encrypt_blocks ?E (take 16 (h v)) (blocks ?B ?n))))"
    by (simp add: replace_blocks_def E [symmetric] del: map_eq_conv)
  have cond: "Some k \<noteq> None \<and> Some p \<noteq> None \<and> Some v \<noteq> None \<and>
        0 < sz \<and> uAES_MAX_INPUT_SIZE \<ge> sz \<and> uAESRGE > aes_mode"
    using assms(1-3) by (simp add: uAES_MAX_INPUT_SIZE_def)
  show ?thesis
    by (simp only: uaes_cbc_encryption_def cond simp_thms if_True option.sel option.case
          key_expansion_mode [OF assms(3,4)] s0 s1 loop)
qed

lemma uaes_cbc_decryption_eq:
  assumes "0 < sz" "sz \<le> 64" "aes_mode < uAESRGE"
    and "4 * Nk_of aes_mode \<le> length (h k)" "16 * block_offset sz \<le> length (h p)"
    and "16 \<le> length (h v)" "v \<noteq> p"
  shows "uaes_cbc_decryption h (Some p) sz (Some k) (Some v) aes_mode =
         Some (0, h(p := replace_blocks (h p) (block_offset sz)
                          (cbc_decrypt_blocks (decrypt_block (h k) aes_mode) (take 16 (h v))
                             (blocks (h p) (block_offset sz)))))"
proof -
  let ?ks = "key_schedule (h k) uAES_MAX_KSCHD_SIZE (Nk_of aes_mode) (Nr_of aes_mode)"
  let ?n = "block_offset sz"
  let ?B = "h p"
  let ?D = "decrypt_block (h k) aes_mode"
  let ?g = "\<lambda>j. xor_block (?D (get_block ?B j)) (get_block ?B (j - 1))"
  let ?R = "take 16 ?B @ concat (map ?g [1..<?n]) @ drop (16 * ?n) ?B"
  let ?y = "xor_block (?D (get_block ?B 0)) (take 16 (h v))"
  let ?h0 = "h(p := ?R)"
  let ?h1 = "h(p := put_block ?R 0 (?D (get_block ?B 0)))"
  let ?h2 = "h(p := put_block ?R 0 ?y)"
  have n: "1 \<le> ?n" using assms(1) by (rule block_offset_pos)
  have bound: "16 * 0 + 16 \<le> length ?B" using n assms(5) by simp
  have D: "?D = (\<lambda>b. inverse_block b ?ks 4 (Nr_of aes_mode))"
    by (rule ext) (simp add: decrypt_block_def)
  have sn: "Suc (?n - 1) = ?n" using n by simp
  have "cbc_decryption_loop h p ?ks (Nk_of aes_mode) 4 (Nr_of aes_mode) (?n - 1)
        = Some (h(p := take 16 ?B @
             concat (map (\<lambda>j. xor_block (inverse_block (get_block ?B j) ?ks 4 (Nr_of aes_mode))
                                 (get_block ?B (j - 1))) [1..<Suc (?n - 1)]) @
             drop (16 * Suc (?n - 1)) ?B))"
    using n assms(5) by (intro cbc_decryption_loop_eq) simp
  then have loop: "cbc_decryption_loop h p ?ks (Nk_of aes_mode) 4 (Nr_of aes_mode) (?n - 1) = Some ?h0"
    unfolding sn by (simp add: decrypt_block_def)
  have lg: "\<forall>c \<in> set (map ?g [1..<?n]). length c = 16"
  proof
    fix c assume "c \<in> set (map ?g [1..<?n])"
    then obtain j where j: "1 \<le> j" "j < ?n" "c = ?g j" by auto
    then have "16 * (j - 1) + 16 \<le> length ?B" using assms(5) by simp
    then show "length c = 16"
      using j by (simp add: length_xor_block length_decrypt_block length_get_block)
  qed
  have lR: "length ?R = length ?B"
    using lg n assms(5) by (simp add: length_concat_16)
  have boundR: "16 * 0 + 16 \<le> length ?R" using lR bound by simp
  have gR: "get_block ?R 0 = get_block ?B 0"
    using bound by (simp add: get_block_def)
  have s1: "uaes_inverse_cipher ?h0 (p, 16 * 0) ?ks (Nk_of aes_mode) 4 (Nr_of aes_mode) = Some ?h1"
    using inverse_at [of 0 ?h0 p ?ks "Nk_of aes_mode" 4 "Nr_of aes_mode"] boundR gR
    by (simp add: decrypt_block_def)
  have "uaes_xor_iv ?h1 (p, 16 * 0) (v, 0)
        = Some (?h1(p := put_block (?h1 p) 0 (xor_block (get_block (?h1 p) 0) (take 16 (?h1 v)))))"
    using assms(6,7) boundR
    by (intro xor_at_iv) (simp_all add: length_put_block length_decrypt_block)
  then have s2: "uaes_xor_iv ?h1 (p, 16 * 0) (v, 0) = Some ?h2"
    using assms(7) boundR
    by (simp add: get_block_put_block_same put_block_put_block length_decrypt_block)
  have ly: "length ?y = 16"
    using assms(6) by (simp add: length_xor_block length_decrypt_block)
  have "put_block ?R 0 ?y = ?y @ concat (map ?g [1..<?n]) @ drop (16 * ?n) ?B"
    using bound by (simp add: put_block_def)
  also have "\<dots> = replace_blocks ?B ?n
                     (cbc_decrypt_blocks ?D (take 16 (h v)) (blocks ?B ?n))"
  proof -
    have "map (\<lambda>idx. xor_block (?D (blocks ?B ?n ! idx))
                 (if idx = 0 then take 16 (h v) else blocks ?B ?n ! (idx - 1))) [1..<?n]
          = map ?g [1..<?n]"
      by (intro map_cong refl) (auto simp: nth_blocks)
    then show ?thesis
      using n
      by (simp add: replace_blocks_def cbc_decrypt_blocks_def length_blocks upt_conv_Cons
            nth_blocks del: map_eq_conv)
  qed
  finally have fin: "put_block ?R 0 ?y
      = replace_blocks ?B ?n (cbc_decrypt_blocks ?D (take 16 (h v)) (blocks ?B ?n))" .
  have cond: "Some k \<noteq> None \<and> Some p \<noteq> None \<and> Some v \<noteq> None \<and>
        0 < sz \<and> uAES_MAX_INPUT_SIZE \<ge> sz \<and> uAESRGE > aes_mode"
    using assms(1-3) by (simp add: uAES_MAX_INPUT_SIZE_def)
  show ?thesis
    by (simp only: uaes_cbc_decryption_def cond simp_thms if_True option.sel option.case
          key_expansion_mode [OF assms(3,4)] loop s1 s2 fin)
qed

lemma uaes128enc_eq:
  assumes "0 < sz" "sz \<le> 16" "16 \<le> length (h k)" "16 \<le> length (h p)"
  shows "uaes128enc h (Some p) (Some k) sz =
         Some (0, h(p := foward_block (take 16 (h p)) (key_schedule (h k) uAES128_KSCHD_SIZE 4 10) 4 10 @
                         drop 16 (h p)))"
proof -
  have ke: "key_expansion (h k) (replicate uAES128_KSCHD_SIZE 0) 4 (4 * (10 + 1))
            = Some (key_schedule (h k) uAES128_KSCHD_SIZE 4 10)"
    using assms(3) by (intro key_expansion_Some) (simp_all add: uAES128_KSCHD_SIZE_def)
  have c: "uaes_foward_cipher h (p, 0) (key_schedule (h k) uAES128_KSCHD_SIZE 4 10) 4 4 10
           = Some (h(p := foward_block (take 16 (h p)) (key_schedule (h k) uAES128_KSCHD_SIZE 4 10) 4 10 @
                         drop 16 (h p)))"
    using uaes_foward_cipher_eq [of "(p, 0)" h] assms(4) by simp
  have cond: "Some k \<noteq> None \<and> Some p \<noteq> None \<and> 0 < sz \<and> uAES_BLOCK_SIZE \<ge> sz"
    using assms(1,2) by (simp add: uAES_BLOCK_SIZE_def)
  show ?thesis
    by (simp only: uaes128enc_def cond simp_thms if_True option.sel option.case ke c)
qed

lemma uaes192enc_eq:
  assumes "0 < sz" "sz \<le> 16" "24 \<le> length (h k)" "16 \<le> length (h p)"
  shows "uaes192enc h (Some p) (Some k) sz =
         Some (0, h(p := foward_block (take 16 (h p)) (key_schedule (h k) uAES192_KSCHD_SIZE 6 12) 4 12 @
                         drop 16 (h p)))"
proof -
  have ke: "key_expansion (h k) (replicate uAES192_KSCHD_SIZE 0) 6 (4 * (12 + 1))
            = Some (key_schedule (h k) uAES192_KSCHD_SIZE 6 12)"
    using assms(3) by (intro key_expansion_Some) (simp_all add: uAES192_KSCHD_SIZE_def)
  have c: "uaes_foward_cipher h (p, 0) (key_schedule (h k) uAES192_KSCHD_SIZE 6 12) 6 4 12
           = Some (h(p := foward_block (take 16 (h p)) (key_schedule (h k) uAES192_KSCHD_SIZE 6 12) 4 12 @
                         drop 16 (h p)))"
    using uaes_foward_cipher_eq [of "(p, 0)" h] assms(4) by simp
  have cond: "Some k \<noteq> None \<and> Some p \<noteq> None \<and> 0 < sz \<and> uAES_BLOCK_SIZE \<ge> sz"
    using assms(1,2) by (simp add: uAES_BLOCK_SIZE_def)
  show ?thesis
    by (simp only: uaes192enc_def cond simp_thms if_True option.sel option.case ke c)
qed

lemma uaes256enc_eq:
  assumes "0 < sz" "sz \<le> 16" "32 \<le> length (h k)" "16 \<le> length (h p)"
  shows "uaes256enc h (Some p) (Some k) sz =
         Some (0, h(p := foward_block (take 16 (h p)) (key_schedule (h k) uAES256_KSCHD_SIZE 8 14) 4 14 @
                         drop 16 (h p)))"
proof -
  have ke: "key_expansion (h k) (replicate uAES256_KSCHD_SIZE 0) 8 (4 * (14 + 1))
            = Some (key_schedule (h k) uAES256_KSCHD_SIZE 8 14)"
    using assms(3) by (intro key_expansion_Some) (simp_all add: uAES256_KSCHD_SIZE_def)
  have c: "uaes_foward_cipher h (p, 0) (key_schedule (h k) uAES256_KSCHD_SIZE 8 14) 8 4 14
           = Some (h(p := foward_block (take 16 (h p)) (key_schedule (h k) uAES256_KSCHD_SIZE 8 14) 4 14 @
                         drop 16 (h p)))"
    using uaes_foward_cipher_eq [of "(p, 0)" h] assms(4) by simp
  have cond: "Some k \<noteq> None \<and> Some p \<noteq> None \<and> 0 < sz \<and> uAES_BLOCK_SIZE \<ge> sz"
    using assms(1,2) by (simp add: uAES_BLOCK_SIZE_def)
  show ?thesis
    by (simp only: uaes256enc_def cond simp_thms if_True option.sel option.case ke c)
qed

lemma uaes128dec_eq:
  assumes "0 < sz" "sz \<le> 16" "16 \<le> length (h k)" "16 \<le> length (h p)"
  shows "uaes128dec h (Some p) (Some k) sz =
         Some (0, h(p := inverse_block (take 16 (h p)) (key_schedule (h k) uAES128_KSCHD_SIZE 4 10) 4 10 @
                         drop 16 (h p)))"
proof -
  have ke: "key_expansion (h k) (replicate uAES128_KSCHD_SIZE 0) 4 (4 * (10 + 1))
            = Some (key_schedule (h k) uAES128_KSCHD_SIZE 4 10)"
    using assms(3) by (intro key_expansion_Some) (simp_all add: uAES128_KSCHD_SIZE_def)
  have c: "uaes_inverse_cipher h (p, 0) (key_schedule (h k) uAES128_KSCHD_SIZE 4 10) 4 4 10
           = Some (h(p := inverse_block (take 16 (h p)) (key_schedule (h k) uAES128_KSCHD_SIZE 4 10) 4 10 @
                         drop 16 (h p)))"
    using uaes_inverse_cipher_eq [of "(p, 0)" h] assms(4) by simp
  have cond: "Some k \<noteq> None \<and> Some p \<noteq> None \<and> 0 < sz \<and> uAES_BLOCK_SIZE \<ge> sz"
    using assms(1,2) by (simp add: uAES_BLOCK_SIZE_def)
  show ?thesis
    by (simp only: uaes128dec_def cond simp_thms if_True option.sel option.case ke c)
qed

lemma uaes192dec_eq:
  assumes "0 < sz" "sz \<le> 16" "24 \<le> length (h k)" "16 \<le> length (h p)"
  shows "uaes192dec h (Some p) (Some k) sz =
         Some (0, h(p := inverse_block (take 16 (h p)) (key_schedule (h k) uAES192_KSCHD_SIZE 6 12) 4 12 @
                         drop 16 (h p)))"
proof -
  have ke: "key_expansion (h k) (replicate uAES192_KSCHD_SIZE 0) 6 (4 * (12 + 1))
            = Some (key_schedule (h k) uAES192_KSCHD_SIZE 6 12)"
    using assms(3) by (intro key_expansion_Some) (simp_all add: uAES192_KSCHD_SIZE_def)
  have c: "uaes_inverse_cipher h (p, 0) (key_schedule (h k) uAES192_KSCHD_SIZE 6 12) 6 4 12
           = Some (h(p := inverse_block (take 16 (h p)) (key_schedule (h k) uAES192_KSCHD_SIZE 6 12) 4 12 @
                         drop 16 (h p)))"
    using uaes_inverse_cipher_eq [of "(p, 0)" h] assms(4) by simp
  have cond: "Some k \<noteq> None \<and> Some p \<noteq> None \<and> 0 < sz \<and> uAES_BLOCK_SIZE \<ge> sz"
    using assms(1,2) by (simp add: uAES_BLOCK_SIZE_def)
  show ?thesis
    by (simp only: uaes192dec_def cond simp_thms if_True option.sel option.case ke c)
qed

lemma uaes256dec_eq:
  assumes "0 < sz" "sz \<le> 16" "32 \<le> length (h k)" "16 \<le> length (h p)"
  shows "uaes256dec h (Some p) (Some k) sz =
         Some (0, h(p := inverse_block (take 16 (h p)) (key_schedule (h k) uAES256_KSCHD_SIZE 8 14) 4 14 @
                         drop 16 (h p)))"
proof -
  have ke: "key_expansion (h k) (replicate uAES256_KSCHD_SIZE 0) 8 (4 * (14 + 1))
            = Some (key_schedule (h k) uAES256_KSCHD_SIZE 8 14)"
    using assms(3) by (intro key_expansion_Some) (simp_all add: uAES256_KSCHD_SIZE_def)
  have c: "uaes_inverse_cipher h (p, 0) (key_schedule (h k) uAES256_KSCHD_SIZE 8 14) 8 4 14
           = Some (h(p := inverse_block (take 16 (h p)) (key_schedule (h k) uAES256_KSCHD_SIZE 8 14) 4 14 @
                         drop 16 (h p)))"
    using uaes_inverse_cipher_eq [of "(p, 0)" h] assms(4) by simp
  have cond: "Some k \<noteq> None \<and> Some p \<noteq> None \<and> 0 < sz \<and> uAES_BLOCK_SIZE \<ge> sz"
    using assms(1,2) by (simp add: uAES_BLOCK_SIZE_def)
  show ?thesis
    by (simp only: uaes256dec_def cond simp_thms if_True option.sel option.case ke c)
qed

section \<open>Chaining\<close>

lemma foward_rounds_fold:
  "foward_rounds block kschd Nb Nr r =
     fold (\<lambda>round s. add_round_key (mix_columns (shift_rows (sub_block s))) kschd round Nb)
       [r..<Nr] block"
proof (induction block kschd Nb Nr r rule: foward_rounds.induct)
  case (1 block kschd Nb Nr round)
  show ?case
  proof (cases "round < Nr")
    case True
    then show ?thesis
      using "1.IH" by (subst foward_rounds.simps) (simp add: upt_conv_Cons)
  next
    case False
    then show ?thesis by (subst foward_rounds.simps) simp
  qed
qed

lemma foward_block_spec: "foward_block block kschd Nb Nr = spec_forward_cipher block kschd Nb Nr"
  by (simp add: foward_block_def spec_forward_cipher_def foward_rounds_fold)

lemma xor_block_commute: "xor_block a b = xor_block b a"
  unfolding xor_block_def
  by (induction a b rule: list_induct2') (simp_all add: xor.commute)

lemma xor_block_inject_left:
  assumes "length a = 16" "length a' = 16" "length b = 16" "xor_block a b = xor_block a' b"
  shows "a = a'"
proof -
  have "a = xor_block (xor_block a b) b" using assms(1,3) by (simp add: xor_block_twice)
  also have "\<dots> = xor_block (xor_block a' b) b" by (simp only: assms(4))
  also have "\<dots> = a'" using assms(2,3) by (simp add: xor_block_twice)
  finally show ?thesis .
qed

lemma xor_block_inject_right:
  assumes "length a = 16" "length b = 16" "length b' = 16" "xor_block a b = xor_block a b'"
  shows "b = b'"
  using assms xor_block_inject_left [of b b' a] by (simp add: xor_block_commute [of a])

lemma length_cbc_encrypt_blocks: "length (cbc_encrypt_blocks E iv bs) = length bs"
  by (induction bs arbitrary: iv) simp_all

lemma cbc_encrypt_blocks_lengths:
  "(\<And>x. length (E x) = 16) \<Longrightarrow> \<forall>c \<in> set (cbc_encrypt_blocks E iv bs). length c = 16"
  by (induction bs arbitrary: iv) simp_all

lemma cbc_encrypt_blocks_nth:
  "j < length bs \<Longrightarrow>
   cbc_encrypt_blocks E iv bs ! j =
     E (xor_block (bs ! j) (if j = 0 then iv else cbc_encrypt_blocks E iv bs ! (j - 1)))"
proof (induction bs arbitrary: iv j)
  case Nil
  then show ?case by simp
next
  case (Cons b bs)
  show ?case
  proof (cases j)
    case 0
    then show ?thesis by simp
  next
    case (Suc i)
    with Cons.prems have i: "i < length bs" by simp
    show ?thesis
      using Cons.IH [OF i, of "E (xor_block b iv)"] Suc by (cases i) simp_all
  qed
qed



lemma cbc_avalanche_before:
  assumes "length bs = n" "length bs' = n" "\<forall>j<n. j \<noteq> i \<longrightarrow> bs ! j = bs' ! j"
  shows "j < i \<Longrightarrow> j < n \<Longrightarrow> cbc_encrypt_blocks E iv bs ! j = cbc_encrypt_blocks E iv bs' ! j"
proof (induction j)
  case 0
  then show ?case
    using assms cbc_encrypt_blocks_nth [of 0 bs E iv] cbc_encrypt_blocks_nth [of 0 bs' E iv]
    by simp
next
  case (Suc j)
  then have "cbc_encrypt_blocks E iv bs ! j = cbc_encrypt_blocks E iv bs' ! j" by simp
  moreover have "bs ! Suc j = bs' ! Suc j" using Suc.prems assms(3) by simp
  ultimately show ?case
    using Suc.prems assms(1,2) cbc_encrypt_blocks_nth [of "Suc j" bs E iv]
      cbc_encrypt_blocks_nth [of "Suc j" bs' E iv]
    by simp
qed

lemma cbc_avalanche_step:
  assumes "aes_mode < uAESRGE"
    and "length a = 16" "length a' = 16" "length b = 16" "length b' = 16"
    and "encrypt_block key aes_mode (xor_block a b) = encrypt_block key aes_mode (xor_block a' b')"
  shows "xor_block a b = xor_block a' b'"
proof (rule encrypt_block_inject [OF assms(1)])
  show "length (xor_block a b) = 16" using assms(2,4) by (simp add: length_xor_block)
  show "length (xor_block a' b') = 16" using assms(3,5) by (simp add: length_xor_block)
  show "encrypt_block key aes_mode (xor_block a b) = encrypt_block key aes_mode (xor_block a' b')"
    by fact
qed

lemma cbc_avalanche_after:
  assumes "length bs = n" "length bs' = n" "\<forall>j<n. j \<noteq> i \<longrightarrow> bs ! j = bs' ! j"
    and "bs ! i \<noteq> bs' ! i" "i < n"
    and "\<forall>b \<in> set bs. length b = 16" "\<forall>b \<in> set bs'. length b = 16" "length iv = 16"
    and mode: "aes_mode < uAESRGE"
  shows "i \<le> j \<Longrightarrow> j < n \<Longrightarrow> cbc_encrypt_blocks (encrypt_block key aes_mode) iv bs ! j \<noteq> cbc_encrypt_blocks (encrypt_block key aes_mode) iv bs' ! j"
proof (induction j)
  case 0
  then have i0: "i = 0" by simp
  have "bs ! 0 \<in> set bs" "bs' ! 0 \<in> set bs'"
    using assms(1,2,5) by (simp_all only: nth_mem)
  then have l: "length (bs ! 0) = 16" "length (bs' ! 0) = 16"
    using assms(6,7) by blast+
  have c0: "cbc_encrypt_blocks (encrypt_block key aes_mode) iv bs ! 0 = encrypt_block key aes_mode (xor_block (bs ! 0) iv)"
    using assms(1,5) cbc_encrypt_blocks_nth [of 0 bs "encrypt_block key aes_mode" iv] by simp
  have c0': "cbc_encrypt_blocks (encrypt_block key aes_mode) iv bs' ! 0 = encrypt_block key aes_mode (xor_block (bs' ! 0) iv)"
    using assms(2,5) cbc_encrypt_blocks_nth [of 0 bs' "encrypt_block key aes_mode" iv] by simp
  show ?case
  proof
    assume "cbc_encrypt_blocks (encrypt_block key aes_mode) iv bs ! 0 = cbc_encrypt_blocks (encrypt_block key aes_mode) iv bs' ! 0"
    then have "encrypt_block key aes_mode (xor_block (bs ! 0) iv) = encrypt_block key aes_mode (xor_block (bs' ! 0) iv)"
      unfolding c0 c0' .
    then have "xor_block (bs ! 0) iv = xor_block (bs' ! 0) iv"
      by (rule cbc_avalanche_step [OF mode l assms(8) assms(8)])
    then have "bs ! 0 = bs' ! 0"
      by (rule xor_block_inject_left [OF l assms(8)])
    with assms(4) i0 show False by simp
  qed
next
  case (Suc j)
  let ?c = "cbc_encrypt_blocks (encrypt_block key aes_mode) iv bs" and ?c' = "cbc_encrypt_blocks (encrypt_block key aes_mode) iv bs'"
  have "bs ! Suc j \<in> set bs" "bs' ! Suc j \<in> set bs'"
    using assms(1,2) Suc.prems(2) by (simp_all only: nth_mem)
  then have l: "length (bs ! Suc j) = 16" "length (bs' ! Suc j) = 16"
    using assms(6,7) by blast+
  have "j < length ?c" "j < length ?c'"
    using assms(1,2) Suc.prems(2) by (simp_all add: length_cbc_encrypt_blocks)
  then have "?c ! j \<in> set ?c" "?c' ! j \<in> set ?c'"
    by (simp_all only: nth_mem)
  then have lc: "length (?c ! j) = 16" "length (?c' ! j) = 16"
    using cbc_encrypt_blocks_lengths [of "encrypt_block key aes_mode" iv bs] cbc_encrypt_blocks_lengths [of "encrypt_block key aes_mode" iv bs']
    by (blast intro: length_encrypt_block)+
  have nth: "?c ! Suc j = encrypt_block key aes_mode (xor_block (bs ! Suc j) (?c ! j))"
    using assms(1) Suc.prems(2) cbc_encrypt_blocks_nth [of "Suc j" bs "encrypt_block key aes_mode" iv] by simp
  have nth': "?c' ! Suc j = encrypt_block key aes_mode (xor_block (bs' ! Suc j) (?c' ! j))"
    using assms(2) Suc.prems(2) cbc_encrypt_blocks_nth [of "Suc j" bs' "encrypt_block key aes_mode" iv] by simp
  show ?case
  proof
    assume "?c ! Suc j = ?c' ! Suc j"
    then have "encrypt_block key aes_mode (xor_block (bs ! Suc j) (?c ! j)) = encrypt_block key aes_mode (xor_block (bs' ! Suc j) (?c' ! j))"
      unfolding nth nth' .
    then have x: "xor_block (bs ! Suc j) (?c ! j) = xor_block (bs' ! Suc j) (?c' ! j)"
      by (rule cbc_avalanche_step [OF mode l lc])
    show False
    proof (cases "i = Suc j")
      case True
      have prev: "?c ! j = ?c' ! j"
        using cbc_avalanche_before [OF assms(1-3), of j "encrypt_block key aes_mode" iv] True Suc.prems by simp
      have "xor_block (bs ! Suc j) (?c' ! j) = xor_block (bs' ! Suc j) (?c' ! j)"
        using x unfolding prev .
      then have "bs ! Suc j = bs' ! Suc j"
        by (rule xor_block_inject_left [OF l lc(2)])
      with assms(4) True show False by simp
    next
      case False
      with Suc.prems have ij: "i \<le> j" by simp
      have ne: "?c ! j \<noteq> ?c' ! j" using Suc.IH [OF ij] Suc.prems(2) by simp
      have same: "bs ! Suc j = bs' ! Suc j" using assms(3) False Suc.prems by simp
      have "xor_block (bs' ! Suc j) (?c ! j) = xor_block (bs' ! Suc j) (?c' ! j)"
        using x unfolding same .
      then have "?c ! j = ?c' ! j"
        by (rule xor_block_inject_right [OF l(2) lc])
      with ne show False by simp
    qed
  qed
qed

section \<open>An IV pointer that is the data pointer\<close>

lemma zero_prefix_0: "zero_prefix h blk 0 = h"
proof -
  have "map (\<lambda>j. if snd blk \<le> j \<and> j < snd blk + 0 then 0 else h (fst blk) ! j)
          [0..<length (h (fst blk))] = h (fst blk)"
    by (rule nth_equalityI) auto
  then show ?thesis unfolding zero_prefix_def by simp
qed

lemma xor_byte_self_step:
  assumes "k < 16" "snd blk + 16 \<le> length (h (fst blk))"
  shows "xor_byte (zero_prefix h blk k) blk blk k = Some (zero_prefix h blk (Suc k))"
proof -
  obtain bo boff where blk: "blk = (bo, boff)" by (cases blk)
  let ?n = "length (h bo)"
  let ?F = "\<lambda>k j. if boff \<le> j \<and> j < boff + k then 0 else h bo ! j"
  let ?X = "map (?F k) [0..<?n]"
  have b: "boff + 16 \<le> ?n" using assms by (simp add: blk)
  have upd: "?X[boff + k := ?X ! (boff + k) XOR ?X ! (boff + k)] = map (?F (Suc k)) [0..<?n]"
    using b \<open>k < 16\<close> by (intro nth_equalityI) (auto simp: nth_list_update)
  have len: "length (zero_prefix h blk k bo) = ?n"
    by (simp add: blk zero_prefix_def)
  have "xor_byte (zero_prefix h blk k) blk blk k
        = Some ((zero_prefix h blk k)(bo := (zero_prefix h blk k bo)[boff + k :=
             zero_prefix h blk k bo ! (boff + k) XOR zero_prefix h blk k bo ! (boff + k)]))"
    unfolding xor_byte_def using b \<open>k < 16\<close> len by (simp add: blk)
  also have "\<dots> = Some (zero_prefix h blk (Suc k))"
    by (simp only: zero_prefix_def blk fst_conv snd_conv fun_upd_same fun_upd_upd upd)
  finally show ?thesis .
qed

lemma uaes_xor_iv_loop_self:
  assumes "snd blk + 16 \<le> length (h (fst blk))"
  shows "c \<le> 4 \<Longrightarrow>
         uaes_xor_iv_loop (zero_prefix h blk (4 * c)) blk blk c = Some (zero_prefix h blk 16)"
proof (induction "4 - c" arbitrary: c)
  case 0
  then have "c = 4" by simp
  then show ?case by (simp add: uaes_xor_iv_loop.simps)
next
  case (Suc n)
  then have c: "c < 4" by simp
  have s0: "xor_byte (zero_prefix h blk (4 * c)) blk blk (4 * c + 0)
              = Some (zero_prefix h blk (4 * c + 1))"
    using xor_byte_self_step [of "4 * c" blk h] assms c by simp
  have s1: "xor_byte (zero_prefix h blk (4 * c + 1)) blk blk (4 * c + 1)
              = Some (zero_prefix h blk (4 * c + 2))"
    using xor_byte_self_step [of "4 * c + 1" blk h] assms c by (simp add: eval_nat_numeral)
  have s2: "xor_byte (zero_prefix h blk (4 * c + 2)) blk blk (4 * c + 2)
              = Some (zero_prefix h blk (4 * c + 3))"
    using xor_byte_self_step [of "4 * c + 2" blk h] assms c by (simp add: eval_nat_numeral)
  have s3: "xor_byte (zero_prefix h blk (4 * c + 3)) blk blk (4 * c + 3)
              = Some (zero_prefix h blk (4 * Suc c))"
    using xor_byte_self_step [of "4 * c + 3" blk h] assms c by (simp add: eval_nat_numeral)
  have "uaes_xor_iv_loop (zero_prefix h blk (4 * c)) blk blk c
          = uaes_xor_iv_loop (zero_prefix h blk (4 * Suc c)) blk blk (Suc c)"
    by (subst uaes_xor_iv_loop.simps) (simp only: c if_True s0 s1 s2 s3 option.case)
  also have "\<dots> = Some (zero_prefix h blk 16)"
    using Suc.hyps(2) c by (intro Suc.hyps(1)) simp_all
  finally show ?case .
qed

lemma xor_at_self:
  assumes "16 * idx + 16 \<le> length (h p)"
  shows "uaes_xor_iv h (p, 16 * idx) (p, 16 * idx) =
         Some (h(p := put_block (h p) idx (replicate 16 0)))"
proof -
  have "map (\<lambda>j. if 16 * idx \<le> j \<and> j < 16 * idx + 16 then 0 else h p ! j) [0..<length (h p)]
        = put_block (h p) idx (replicate 16 0)"
    using assms by (auto intro!: nth_equalityI simp: put_block_def nth_append)
  then have "zero_prefix h (p, 16 * idx) 16 = h(p := put_block (h p) idx (replicate 16 0))"
    by (simp only: zero_prefix_def fst_conv snd_conv)
  then show ?thesis
    using uaes_xor_iv_loop_self [of "(p, 16 * idx)" h 0] assms
    by (simp add: uaes_xor_iv_def zero_prefix_0)
qed

lemma uaes_cbc_encryption_alias:
  assumes "0 < sz" "sz \<le> 64" "aes_mode < uAESRGE"
    and "4 * Nk_of aes_mode \<le> length (h k)" "16 * block_offset sz \<le> length (h p)"
  shows "\<exists>h'. uaes_cbc_encryption h (Some p) sz (Some k) (Some p) aes_mode = Some (0, h')"
proof -
  let ?ks = "key_schedule (h k) uAES_MAX_KSCHD_SIZE (Nk_of aes_mode) (Nr_of aes_mode)"
  let ?n = "block_offset sz"
  let ?B = "h p"
  let ?Z = "put_block ?B 0 (replicate 16 0)"
  let ?h0 = "h(p := ?Z)"
  let ?Y = "put_block ?Z 0 (foward_block (get_block ?Z 0) ?ks 4 (Nr_of aes_mode))"
  let ?h1 = "h(p := ?Y)"
  have n: "1 \<le> ?n" using assms(1) by (rule block_offset_pos)
  have bound: "16 * 0 + 16 \<le> length ?B" using n assms(5) by simp
  have l0: "length ?Z = length ?B" using bound by (simp add: length_put_block)
  have l1: "length ?Y = length ?B"
    using bound l0 by (simp add: length_put_block length_foward_block)
  have s0: "uaes_xor_iv h (p, 0) (p, 0) = Some ?h0"
    using xor_at_self [of 0 h p] bound by simp
  have "uaes_foward_cipher ?h0 (p, 16 * 0) ?ks (Nk_of aes_mode) 4 (Nr_of aes_mode)
        = Some (?h0(p := put_block (?h0 p) 0
                   (foward_block (get_block (?h0 p) 0) ?ks 4 (Nr_of aes_mode))))"
    using bound l0 by (intro foward_at) (simp only: fun_upd_same)
  then have s1: "uaes_foward_cipher ?h0 (p, 16 * 0) ?ks (Nk_of aes_mode) 4 (Nr_of aes_mode) = Some ?h1"
    by simp
  have "cbc_encryption_loop ?h1 p ?ks (Nk_of aes_mode) 4 (Nr_of aes_mode) ?n 1
        = Some (?h1(p := take (16 * 1) (?h1 p) @
             concat (cbc_encrypt_blocks (\<lambda>b. foward_block b ?ks 4 (Nr_of aes_mode))
                       (get_block (?h1 p) (1 - 1)) (map (get_block (?h1 p)) [1..<?n])) @
             drop (16 * ?n) (?h1 p)))"
    using n assms(5) l1 by (intro cbc_encryption_loop_eq) simp_all
  then obtain h' where loop:
    "cbc_encryption_loop ?h1 p ?ks (Nk_of aes_mode) 4 (Nr_of aes_mode) ?n 1 = Some h'"
    by blast
  have cond: "Some k \<noteq> None \<and> Some p \<noteq> None \<and> Some p \<noteq> None \<and>
        0 < sz \<and> uAES_MAX_INPUT_SIZE \<ge> sz \<and> uAESRGE > aes_mode"
    using assms(1-3) by (simp add: uAES_MAX_INPUT_SIZE_def)
  have "uaes_cbc_encryption h (Some p) sz (Some k) (Some p) aes_mode = Some (0, h')"
    by (simp only: uaes_cbc_encryption_def cond simp_thms if_True option.sel option.case
          key_expansion_mode [OF assms(3,4)] s0 s1 loop)
  then show ?thesis by blast
qed

lemma uaes_cbc_decryption_alias:
  assumes "0 < sz" "sz \<le> 64" "aes_mode < uAESRGE"
    and "4 * Nk_of aes_mode \<le> length (h k)" "16 * block_offset sz \<le> length (h p)"
  shows "uaes_cbc_decryption h (Some p) sz (Some k) (Some p) aes_mode =
         Some (0, h(p := replicate 16 0 @
                   concat (map (\<lambda>j. xor_block (decrypt_block (h k) aes_mode (get_block (h p) j))
                                           (get_block (h p) (j - 1))) [1..<block_offset sz]) @
                   drop (16 * block_offset sz) (h p)))"
proof -
  let ?ks = "key_schedule (h k) uAES_MAX_KSCHD_SIZE (Nk_of aes_mode) (Nr_of aes_mode)"
  let ?n = "block_offset sz"
  let ?B = "h p"
  let ?D = "decrypt_block (h k) aes_mode"
  let ?g = "\<lambda>j. xor_block (?D (get_block ?B j)) (get_block ?B (j - 1))"
  let ?R = "take 16 ?B @ concat (map ?g [1..<?n]) @ drop (16 * ?n) ?B"
  let ?h0 = "h(p := ?R)"
  let ?h1 = "h(p := put_block ?R 0 (?D (get_block ?B 0)))"
  let ?h2 = "h(p := put_block ?R 0 (replicate 16 0))"
  have n: "1 \<le> ?n" using assms(1) by (rule block_offset_pos)
  have bound: "16 * 0 + 16 \<le> length ?B" using n assms(5) by simp
  have sn: "Suc (?n - 1) = ?n" using n by simp
  have "cbc_decryption_loop h p ?ks (Nk_of aes_mode) 4 (Nr_of aes_mode) (?n - 1)
        = Some (h(p := take 16 ?B @
             concat (map (\<lambda>j. xor_block (inverse_block (get_block ?B j) ?ks 4 (Nr_of aes_mode))
                                 (get_block ?B (j - 1))) [1..<Suc (?n - 1)]) @
             drop (16 * Suc (?n - 1)) ?B))"
    using n assms(5) by (intro cbc_decryption_loop_eq) simp
  then have loop: "cbc_decryption_loop h p ?ks (Nk_of aes_mode) 4 (Nr_of aes_mode) (?n - 1) = Some ?h0"
    unfolding sn by (simp add: decrypt_block_def)
  have lg: "\<forall>c \<in> set (map ?g [1..<?n]). length c = 16"
  proof
    fix c assume "c \<in> set (map ?g [1..<?n])"
    then obtain j where j: "1 \<le> j" "j < ?n" "c = ?g j" by auto
    then have "16 * (j - 1) + 16 \<le> length ?B" using assms(5) by simp
    then show "length c = 16"
      using j by (simp add: length_xor_block length_decrypt_block length_get_block)
  qed
  have lR: "length ?R = length ?B"
    using lg n assms(5) by (simp add: length_concat_16)
  have boundR: "16 * 0 + 16 \<le> length ?R" using lR bound by simp
  have gR: "get_block ?R 0 = get_block ?B 0"
    using bound by (simp add: get_block_def)
  have s1: "uaes_inverse_cipher ?h0 (p, 16 * 0) ?ks (Nk_of aes_mode) 4 (Nr_of aes_mode) = Some ?h1"
    using inverse_at [of 0 ?h0 p ?ks "Nk_of aes_mode" 4 "Nr_of aes_mode"] boundR gR
    by (simp add: decrypt_block_def)
  have "uaes_xor_iv ?h1 (p, 16 * 0) (p, 16 * 0)
        = Some (?h1(p := put_block (?h1 p) 0 (replicate 16 0)))"
    using boundR by (intro xor_at_self) (simp add: length_put_block length_decrypt_block)
  then have s2: "uaes_xor_iv ?h1 (p, 16 * 0) (p, 0) = Some ?h2"
    using boundR by (simp add: put_block_put_block length_decrypt_block)
  have fin: "put_block ?R 0 (replicate 16 0)
             = replicate 16 0 @ concat (map ?g [1..<?n]) @ drop (16 * ?n) ?B"
    using bound by (simp add: put_block_def)
  have cond: "Some k \<noteq> None \<and> Some p \<noteq> None \<and> Some p \<noteq> None \<and>
        0 < sz \<and> uAES_MAX_INPUT_SIZE \<ge> sz \<and> uAESRGE > aes_mode"
    using assms(1-3) by (simp add: uAES_MAX_INPUT_SIZE_def)
  show ?thesis
    by (simp only: uaes_cbc_decryption_def cond simp_thms if_True option.sel option.case
          key_expansion_mode [OF assms(3,4)] loop s1 s2 fin)
qed

section \<open>The claims\<close>

subsection \<open>Helper facts\<close>

lemma replicate_numeral_Cons: "replicate (numeral k) x = x # replicate (pred_numeral k) x"
  by (simp add: numeral_eq_Suc)

lemma appendix_b_key_expansion:
  "key_expansion appendix_b_key (replicate uAES128_KSCHD_SIZE 0) 4 (4 * (10 + 1))
     = Some appendix_b_schedule"
  by (simp add: uAES128_KSCHD_SIZE_def replicate_numeral_Cons key_expansion_def key_copy.simps
        key_expansion_loop.simps key_temp_def appendix_b_key_def appendix_b_schedule_def
        SubWord_def RotWord_def pack_word_def word_byte_def SBox_def Rcon_def)

lemma appendix_b_foward_block:
  "foward_block appendix_b_plaintext appendix_b_schedule 4 10 = appendix_b_ciphertext"
  by (simp add: foward_block_def foward_rounds.simps appendix_b_plaintext_def
        appendix_b_schedule_def appendix_b_ciphertext_def sub_block_def shift_rows_def
        add_round_key_def word_byte_def upt_rec gmul2_def gmul3_def xtime_def SBox_def)

lemma mode_set: "aes_mode \<in> {uAES128, uAES192, uAES256} \<longleftrightarrow> aes_mode < uAESRGE"
  by (auto simp: uAES128_def uAES192_def uAES256_def uAESRGE_def)

lemma cbc_decrypt_blocks_lengths:
  assumes "\<forall>c \<in> set cs. length c = 16" "length iv = 16" "\<And>x. length (D x) = 16"
  shows "\<forall>c \<in> set (cbc_decrypt_blocks D iv cs). length c = 16"
proof
  fix c assume "c \<in> set (cbc_decrypt_blocks D iv cs)"
  then obtain idx where idx: "idx < length cs"
    and c: "c = xor_block (D (cs ! idx)) (if idx = 0 then iv else cs ! (idx - 1))"
    by (auto simp: cbc_decrypt_blocks_def)
  have "idx \<noteq> 0 \<Longrightarrow> cs ! (idx - 1) \<in> set cs" using idx by simp
  then have "length (if idx = 0 then iv else cs ! (idx - 1)) = 16"
    using assms(1,2) by auto
  then show "length c = 16" unfolding c by (simp add: length_xor_block assms(3))
qed

lemma frame_replace_blocks:
  assumes "\<forall>c \<in> set cs. length c = 16" "length cs = n" "16 * n \<le> length buf"
  shows "length (replace_blocks buf n cs) = length buf \<and>
         (\<forall>i. 16 * n \<le> i \<and> i < length buf \<longrightarrow> replace_blocks buf n cs ! i = buf ! i)"
proof (intro conjI allI impI)
  show "length (replace_blocks buf n cs) = length buf"
    using assms by (rule length_replace_blocks)
next
  fix i assume i: "16 * n \<le> i \<and> i < length buf"
  have "length (concat cs) = 16 * n" using assms(1,2) by (simp add: length_concat_16)
  then show "replace_blocks buf n cs ! i = buf ! i"
    using i by (simp add: replace_blocks_def nth_append)
qed

lemma valid_key_length:
  "aes_mode < uAESRGE \<Longrightarrow> length key = 4 * Nk_of aes_mode \<Longrightarrow> 4 * Nk_of aes_mode \<le> length key"
  by simp

subsection \<open>C4: the structure of the forward cipher\<close>

text \<open>
  Claim C4.  On one 16-byte block that lies inside its object, \<^verbatim>\<open>uaes_foward_cipher\<close>
  writes back in place exactly what the specification's wording gives: \<open>add_round_key\<close>
  with round 0, then for each round from 1 to \<open>Nr - 1\<close> the sequence \<open>sub_block\<close>,
  \<open>shift_rows\<close>, \<open>mix_columns\<close>, \<open>add_round_key\<close>, then a final round of \<open>sub_block\<close>,
  \<open>shift_rows\<close>, \<open>add_round_key\<close> with round \<open>Nr\<close> and no \<open>mix_columns\<close>.  All other bytes
  of the store stay as they were.
\<close>

theorem uaes_foward_cipher_structure:
  assumes "snd buf + 16 \<le> length (h (fst buf))"
  shows "uaes_foward_cipher h buf kschd Nk Nb Nr =
         Some (h(fst buf := take (snd buf) (h (fst buf)) @
                  spec_forward_cipher (take 16 (drop (snd buf) (h (fst buf)))) kschd Nb Nr @
                  drop (snd buf + 16) (h (fst buf))))"
  using uaes_foward_cipher_eq [of buf h kschd Nk Nb Nr] assms
  by (simp only: foward_block_spec)

theorem uaes_foward_cipher_structure_witness:
  "16 + 16 \<le> length (example_store 0) \<and>
   uaes_foward_cipher example_store (0, 16) appendix_b_schedule 4 4 10 =
     Some (example_store(0 :=
        take 16 (example_store 0) @
        spec_forward_cipher (take 16 (drop 16 (example_store 0))) appendix_b_schedule 4 10 @
        drop (16 + 16) (example_store 0)))"
proof -
  have b: "16 + 16 \<le> length (example_store 0)"
    by (simp add: example_store_def appendix_b_plaintext_def appendix_b_ciphertext_def)
  show ?thesis
    using b uaes_foward_cipher_structure [of "(0, 16)" example_store appendix_b_schedule 4 4 10]
    by simp
qed

subsection \<open>C2: the known-answer vector of FIPS-197, Appendix B\<close>

text \<open>
  Claim C2.  \<^verbatim>\<open>uaes128enc\<close> with the key \<open>2b7e151628aed2a6abf7158809cf4f3c\<close> on the
  16-byte plaintext \<open>3243f6a8885a308d313198a2e0370734\<close> returns 0 and leaves the
  ciphertext \<open>3925841d02dc09fbdc118597196a0b32\<close> in the buffer.
\<close>

theorem uaes128enc_appendix_b:
  assumes "h p = appendix_b_plaintext" "h k = appendix_b_key"
  shows "uaes128enc h (Some p) (Some k) 16 = Some (0, h(p := appendix_b_ciphertext))"
proof -
  have lp: "16 \<le> length (h p)" by (simp add: assms(1) appendix_b_plaintext_def)
  have lk: "16 \<le> length (h k)" by (simp add: assms(2) appendix_b_key_def)
  have ks: "key_schedule (h k) uAES128_KSCHD_SIZE 4 10 = appendix_b_schedule"
    using key_expansion_Some [of 4 "h k" uAES128_KSCHD_SIZE 10] lk appendix_b_key_expansion
    by (simp add: assms(2) uAES128_KSCHD_SIZE_def)
  have t: "take 16 (h p) = appendix_b_plaintext" "drop 16 (h p) = []"
    by (simp_all add: assms(1) appendix_b_plaintext_def)
  show ?thesis
    using uaes128enc_eq [of 16 h k p] lp lk
    by (simp add: ks t appendix_b_foward_block)
qed

theorem uaes128enc_appendix_b_witness:
  "appendix_b_store 0 = appendix_b_plaintext \<and> appendix_b_store 1 = appendix_b_key \<and>
   uaes128enc appendix_b_store (Some 0) (Some 1) 16 =
     Some (0, appendix_b_store(0 := appendix_b_ciphertext))"
proof -
  have a: "appendix_b_store 0 = appendix_b_plaintext" by (simp add: appendix_b_store_def)
  have b: "appendix_b_store 1 = appendix_b_key" by (simp add: appendix_b_store_def)
  show ?thesis
    using a b uaes128enc_appendix_b [OF a b] by (intro conjI)
qed

subsection \<open>C5 and C6: the CBC walks\<close>

text \<open>
  Claim C5.  Every valid CBC encryption call (non-null key, buffer and IV with the
  memory they point to, \<open>0 < size \<le> 64\<close>, a valid variant tag; the IV an object other
  than the data) returns 0 and leaves, in the first \<open>ceil(size / 16)\<close> blocks of the
  buffer, the blocks that \<open>cbc_encrypt_blocks\<close> gives: block 0 XORed with the IV and put
  through the forward cipher, every later block XORed with the ciphertext just produced
  for the block before it and then put through the forward cipher.
\<close>

theorem uaes_cbc_encryption_walk:
  assumes "0 < sz" "sz \<le> 64" "aes_mode < uAESRGE"
    and "4 * Nk_of aes_mode \<le> length (h k)" "16 * ((sz + 15) div 16) \<le> length (h p)"
    and "16 \<le> length (h v)" "v \<noteq> p"
  shows "uaes_cbc_encryption h (Some p) sz (Some k) (Some v) aes_mode =
         Some (0, h(p := replace_blocks (h p) ((sz + 15) div 16)
                 (cbc_encrypt_blocks (encrypt_block (h k) aes_mode) (take 16 (h v))
                    (blocks (h p) ((sz + 15) div 16)))))"
  using uaes_cbc_encryption_eq [of sz aes_mode h k p v] assms
  unfolding block_offset_eq by blast

theorem uaes_cbc_encryption_walk_witness:
  "(0::nat) < 20 \<and> (20::nat) \<le> 64 \<and> 0 < uAESRGE \<and>
   4 * Nk_of 0 \<le> length (example_store 1) \<and> 16 * ((20 + 15) div 16) \<le> length (example_store 0) \<and>
   16 \<le> length (example_store 2) \<and> (2::nat) \<noteq> 0 \<and>
   uaes_cbc_encryption example_store (Some 0) 20 (Some 1) (Some 2) 0 =
     Some (0, example_store(0 := replace_blocks (example_store 0) ((20 + 15) div 16)
             (cbc_encrypt_blocks (encrypt_block (example_store 1) 0) (take 16 (example_store 2))
                (blocks (example_store 0) ((20 + 15) div 16)))))"
proof -
  have a: "(0::nat) < 20" "(20::nat) \<le> 64" "0 < uAESRGE" "(2::nat) \<noteq> 0"
    by (simp_all add: uAESRGE_def)
  have b: "4 * Nk_of 0 \<le> length (example_store 1)"
    "16 * ((20 + 15) div 16) \<le> length (example_store 0)" "16 \<le> length (example_store 2)"
    by (simp_all add: example_store_def Nk_of_def uAES128_def appendix_b_key_def
          appendix_b_plaintext_def appendix_b_ciphertext_def example_iv_def)
  show ?thesis
    using a b uaes_cbc_encryption_walk [OF a(1,2,3) b a(4)] by (intro conjI)
qed

text \<open>
  Claim C6.  Every valid CBC decryption call returns 0 and leaves, in the first
  \<open>ceil(size / 16)\<close> blocks of the buffer, the blocks that \<open>cbc_decrypt_blocks\<close> gives
  from the ciphertext as it was before the call: block \<open>idx\<close> put through the inverse
  cipher and XORed with the untouched ciphertext block \<open>idx - 1\<close>, block 0 with the IV.
  The loop of the source walks \<open>idx\<close> downwards; its invariant
  (\<open>cbc_decryption_loop_eq\<close>) is that the blocks below \<open>idx\<close> still hold the ciphertext.
\<close>

theorem uaes_cbc_decryption_walk:
  assumes "0 < sz" "sz \<le> 64" "aes_mode < uAESRGE"
    and "4 * Nk_of aes_mode \<le> length (h k)" "16 * ((sz + 15) div 16) \<le> length (h p)"
    and "16 \<le> length (h v)" "v \<noteq> p"
  shows "uaes_cbc_decryption h (Some p) sz (Some k) (Some v) aes_mode =
         Some (0, h(p := replace_blocks (h p) ((sz + 15) div 16)
                 (cbc_decrypt_blocks (decrypt_block (h k) aes_mode) (take 16 (h v))
                    (blocks (h p) ((sz + 15) div 16)))))"
  using uaes_cbc_decryption_eq [of sz aes_mode h k p v] assms
  unfolding block_offset_eq by blast

theorem uaes_cbc_decryption_walk_witness:
  "(0::nat) < 20 \<and> (20::nat) \<le> 64 \<and> 0 < uAESRGE \<and>
   4 * Nk_of 0 \<le> length (example_store 1) \<and> 16 * ((20 + 15) div 16) \<le> length (example_store 0) \<and>
   16 \<le> length (example_store 2) \<and> (2::nat) \<noteq> 0 \<and>
   uaes_cbc_decryption example_store (Some 0) 20 (Some 1) (Some 2) 0 =
     Some (0, example_store(0 := replace_blocks (example_store 0) ((20 + 15) div 16)
             (cbc_decrypt_blocks (decrypt_block (example_store 1) 0) (take 16 (example_store 2))
                (blocks (example_store 0) ((20 + 15) div 16)))))"
proof -
  have a: "(0::nat) < 20" "(20::nat) \<le> 64" "0 < uAESRGE" "(2::nat) \<noteq> 0"
    by (simp_all add: uAESRGE_def)
  have b: "4 * Nk_of 0 \<le> length (example_store 1)"
    "16 * ((20 + 15) div 16) \<le> length (example_store 0)" "16 \<le> length (example_store 2)"
    by (simp_all add: example_store_def Nk_of_def uAES128_def appendix_b_key_def
          appendix_b_plaintext_def appendix_b_ciphertext_def example_iv_def)
  show ?thesis
    using a b uaes_cbc_decryption_walk [OF a(1,2,3) b a(4)] by (intro conjI)
qed

subsection \<open>C10: CBC decryption and the IV\<close>

text \<open>
  Claim C10, as amended.  Every successful CBC decryption call whose IV is an object
  other than the data buffer leaves the 16 bytes of the IV as they were: the IV is read
  by \<^verbatim>\<open>uaes_xor_iv\<close> only, which writes through its first pointer, and that pointer is
  always into the data.
\<close>

theorem uaes_cbc_decryption_iv_unchanged:
  assumes "0 < sz" "sz \<le> 64" "aes_mode < uAESRGE"
    and "4 * Nk_of aes_mode \<le> length (h k)" "16 * ((sz + 15) div 16) \<le> length (h p)"
    and "16 \<le> length (h v)" "v \<noteq> p"
  shows "\<exists>h'. uaes_cbc_decryption h (Some p) sz (Some k) (Some v) aes_mode = Some (0, h') \<and>
              h' v = h v"
  using uaes_cbc_decryption_eq [of sz aes_mode h k p v] assms
  by (simp add: block_offset_eq)

theorem uaes_cbc_decryption_iv_unchanged_witness:
  "(0::nat) < 32 \<and> (32::nat) \<le> 64 \<and> 0 < uAESRGE \<and>
   4 * Nk_of 0 \<le> length (example_store 1) \<and> 16 * ((32 + 15) div 16) \<le> length (example_store 0) \<and>
   16 \<le> length (example_store 2) \<and> (2::nat) \<noteq> 0 \<and>
   (\<exists>h'. uaes_cbc_decryption example_store (Some 0) 32 (Some 1) (Some 2) 0 = Some (0, h') \<and>
         h' 2 = example_store 2)"
proof -
  have a: "(0::nat) < 32" "(32::nat) \<le> 64" "0 < uAESRGE" "(2::nat) \<noteq> 0"
    by (simp_all add: uAESRGE_def)
  have b: "4 * Nk_of 0 \<le> length (example_store 1)"
    "16 * ((32 + 15) div 16) \<le> length (example_store 0)" "16 \<le> length (example_store 2)"
    by (simp_all add: example_store_def Nk_of_def uAES128_def appendix_b_key_def
          appendix_b_plaintext_def appendix_b_ciphertext_def example_iv_def)
  show ?thesis
    using a b uaes_cbc_decryption_iv_unchanged [OF a(1,2,3) b a(4)] by (intro conjI)
qed

text \<open>
  Claim C10 as it was stated, for every successful call, fails where the IV pointer is the
  data pointer.  With a 16-byte buffer passed as both, the call passes the validation and
  returns 0; the inverse cipher overwrites block 0 and the final \<^verbatim>\<open>uaes_xor_iv\<close> XORs
  each byte with itself, so the 16 bytes that the IV pointer points to are all zero
  afterwards and no longer what they were.
\<close>

theorem uaes_cbc_decryption_iv_alias_counterexample:
  "uaes_cbc_decryption appendix_b_store (Some 0) 16 (Some 1) (Some 0) 0 =
     Some (0, appendix_b_store(0 := replicate 16 0)) \<and>
   (appendix_b_store(0 := replicate 16 0)) 0 \<noteq> appendix_b_store 0"
proof -
  have a: "(0::nat) < 16" "(16::nat) \<le> 64" "0 < uAESRGE"
    "4 * Nk_of 0 \<le> length (appendix_b_store 1)"
    "16 * block_offset 16 \<le> length (appendix_b_store 0)"
    by (simp_all add: uAESRGE_def appendix_b_store_def Nk_of_def uAES128_def appendix_b_key_def
          appendix_b_plaintext_def block_offset_eq)
  have d: "drop 16 (appendix_b_store 0) = []"
    by (simp add: appendix_b_store_def appendix_b_plaintext_def)
  have "uaes_cbc_decryption appendix_b_store (Some 0) 16 (Some 1) (Some 0) 0 =
          Some (0, appendix_b_store(0 := replicate 16 0))"
    using uaes_cbc_decryption_alias [OF a] by (simp add: block_offset_eq d)
  moreover have "(appendix_b_store(0 := replicate 16 0)) 0 \<noteq> appendix_b_store 0"
    by (simp add: appendix_b_store_def appendix_b_plaintext_def replicate_numeral_Cons)
  ultimately show ?thesis by (rule conjI)
qed

subsection \<open>C7: the single-block entry points\<close>

text \<open>
  Claim C7.  Each of \<^verbatim>\<open>uaes128enc\<close>, \<^verbatim>\<open>uaes192enc\<close>, \<^verbatim>\<open>uaes256enc\<close>, \<^verbatim>\<open>uaes128dec\<close>,
  \<^verbatim>\<open>uaes192dec\<close> and \<^verbatim>\<open>uaes256dec\<close>, called with non-null key and buffer and any size
  \<open>s\<close> from 1 to 16, treats the buffer as one full block: it reads the first 16 bytes and
  overwrites them with the forward (or inverse) cipher of those 16 bytes under the
  expanded key, whatever \<open>s\<close> is, and returns 0.  The buffer must hold 16 bytes and the key
  its 16, 24 or 32 bytes.  With \<open>s = 0\<close> or \<open>s > 16\<close> the call returns -1 and changes
  nothing.
\<close>

theorem uaes_single_block:
  "(1 \<le> s \<and> s \<le> 16 \<and> 16 \<le> length (h p) \<longrightarrow>
      (16 \<le> length (h k) \<longrightarrow>
        uaes128enc h (Some p) (Some k) s =
          Some (0, h(p := foward_block (take 16 (h p)) (key_schedule (h k) uAES128_KSCHD_SIZE 4 10) 4 10 @
                          drop 16 (h p))) \<and>
        uaes128dec h (Some p) (Some k) s =
          Some (0, h(p := inverse_block (take 16 (h p)) (key_schedule (h k) uAES128_KSCHD_SIZE 4 10) 4 10 @
                          drop 16 (h p)))) \<and>
      (24 \<le> length (h k) \<longrightarrow>
        uaes192enc h (Some p) (Some k) s =
          Some (0, h(p := foward_block (take 16 (h p)) (key_schedule (h k) uAES192_KSCHD_SIZE 6 12) 4 12 @
                          drop 16 (h p))) \<and>
        uaes192dec h (Some p) (Some k) s =
          Some (0, h(p := inverse_block (take 16 (h p)) (key_schedule (h k) uAES192_KSCHD_SIZE 6 12) 4 12 @
                          drop 16 (h p)))) \<and>
      (32 \<le> length (h k) \<longrightarrow>
        uaes256enc h (Some p) (Some k) s =
          Some (0, h(p := foward_block (take 16 (h p)) (key_schedule (h k) uAES256_KSCHD_SIZE 8 14) 4 14 @
                          drop 16 (h p))) \<and>
        uaes256dec h (Some p) (Some k) s =
          Some (0, h(p := inverse_block (take 16 (h p)) (key_schedule (h k) uAES256_KSCHD_SIZE 8 14) 4 14 @
                          drop 16 (h p))))) \<and>
   (s' = 0 \<or> 16 < s' \<longrightarrow>
      uaes128enc h buf key s' = Some (- 1, h) \<and>
      uaes192enc h buf key s' = Some (- 1, h) \<and>
      uaes256enc h buf key s' = Some (- 1, h) \<and>
      uaes128dec h buf key s' = Some (- 1, h) \<and>
      uaes192dec h buf key s' = Some (- 1, h) \<and>
      uaes256dec h buf key s' = Some (- 1, h))"
proof (intro conjI impI)
  assume "s' = 0 \<or> 16 < s'"
  then show "uaes128enc h buf key s' = Some (- 1, h)" "uaes192enc h buf key s' = Some (- 1, h)" "uaes256enc h buf key s' = Some (- 1, h)" "uaes128dec h buf key s' = Some (- 1, h)" "uaes192dec h buf key s' = Some (- 1, h)" "uaes256dec h buf key s' = Some (- 1, h)"
    by (auto simp: uaes128enc_def uaes192enc_def uaes256enc_def uaes128dec_def uaes192dec_def
          uaes256dec_def uAES_BLOCK_SIZE_def)
qed (simp_all add: uaes128enc_eq uaes192enc_eq uaes256enc_eq uaes128dec_eq uaes192dec_eq
       uaes256dec_eq)

theorem uaes_single_block_witness:
  "(1::nat) \<le> 5 \<and> (5::nat) \<le> 16 \<and> 16 \<le> length (example_store 0) \<and>
   16 \<le> length (example_store 1) \<and>
   uaes128enc example_store (Some 0) (Some 1) 5 =
     Some (0, example_store(0 := foward_block (take 16 (example_store 0))
              (key_schedule (example_store 1) uAES128_KSCHD_SIZE 4 10) 4 10 @
              drop 16 (example_store 0))) \<and>
   uaes128enc example_store (Some 0) (Some 1) 17 = Some (- 1, example_store)"
proof -
  have b: "16 \<le> length (example_store 0)" "16 \<le> length (example_store 1)"
    by (simp_all add: example_store_def appendix_b_key_def appendix_b_plaintext_def
          appendix_b_ciphertext_def)
  show ?thesis
    using b uaes_single_block [of 5 example_store 0 1 17 "Some 0" "Some 1"] by simp
qed

subsection \<open>C9: bytes behind the last block\<close>

text \<open>
  Claim C9.  After every successful multi-block call (ECB or CBC, encryption or
  decryption) with size \<open>s\<close> the buffer has its length and every byte at an offset of
  \<open>16 * ceil(s / 16)\<close> or more holds the value it had before the call.  For CBC the IV
  is an object other than the data buffer.
\<close>

theorem uaes_multi_block_frame:
  assumes "0 < sz" "sz \<le> 64" "aes_mode < uAESRGE"
    and "4 * Nk_of aes_mode \<le> length (h k)" "16 * ((sz + 15) div 16) \<le> length (h p)"
  shows "(\<exists>h'. uaes_ecb_encryption h (Some p) sz (Some k) aes_mode = Some (0, h') \<and>
          length (h' p) = length (h p) \<and>
          drop (16 * ((sz + 15) div 16)) (h' p) = drop (16 * ((sz + 15) div 16)) (h p)) \<and>
     (\<exists>h'. uaes_ecb_decryption h (Some p) sz (Some k) aes_mode = Some (0, h') \<and>
          length (h' p) = length (h p) \<and>
          drop (16 * ((sz + 15) div 16)) (h' p) = drop (16 * ((sz + 15) div 16)) (h p)) \<and>
     (16 \<le> length (h v) \<and> v \<noteq> p \<longrightarrow>
        (\<exists>h'. uaes_cbc_encryption h (Some p) sz (Some k) (Some v) aes_mode = Some (0, h') \<and>
          length (h' p) = length (h p) \<and>
          drop (16 * ((sz + 15) div 16)) (h' p) = drop (16 * ((sz + 15) div 16)) (h p)) \<and>
        (\<exists>h'. uaes_cbc_decryption h (Some p) sz (Some k) (Some v) aes_mode = Some (0, h') \<and>
          length (h' p) = length (h p) \<and>
          drop (16 * ((sz + 15) div 16)) (h' p) = drop (16 * ((sz + 15) div 16)) (h p)))"
proof -
  let ?n = "(sz + 15) div 16"
  have n: "block_offset sz = ?n" by (rule block_offset_eq)
  have bl: "\<forall>b \<in> set (blocks (h p) ?n). length b = 16"
    using assms(5) by (rule blocks_lengths)
  have frame: "length (replace_blocks (h p) ?n cs) = length (h p) \<and>
               drop (16 * ?n) (replace_blocks (h p) ?n cs) = drop (16 * ?n) (h p)"
    if "\<forall>c \<in> set cs. length c = 16" "length cs = ?n" for cs
    using that assms(5) by (simp add: length_replace_blocks drop_replace_blocks)
  have e: "length (replace_blocks (h p) ?n (map (encrypt_block (h k) aes_mode) (blocks (h p) ?n)))
             = length (h p) \<and>
           drop (16 * ?n) (replace_blocks (h p) ?n
               (map (encrypt_block (h k) aes_mode) (blocks (h p) ?n))) = drop (16 * ?n) (h p)"
    by (rule frame) (simp_all add: length_encrypt_block length_blocks)
  have d: "length (replace_blocks (h p) ?n (map (decrypt_block (h k) aes_mode) (blocks (h p) ?n)))
             = length (h p) \<and>
           drop (16 * ?n) (replace_blocks (h p) ?n
               (map (decrypt_block (h k) aes_mode) (blocks (h p) ?n))) = drop (16 * ?n) (h p)"
    by (rule frame) (simp_all add: length_decrypt_block length_blocks)
  have ce: "length (replace_blocks (h p) ?n
               (cbc_encrypt_blocks (encrypt_block (h k) aes_mode) iv (blocks (h p) ?n)))
             = length (h p) \<and>
           drop (16 * ?n) (replace_blocks (h p) ?n
               (cbc_encrypt_blocks (encrypt_block (h k) aes_mode) iv (blocks (h p) ?n)))
             = drop (16 * ?n) (h p)" for iv
    by (rule frame)
      (simp_all add: cbc_encrypt_blocks_lengths [OF length_encrypt_block]
         length_cbc_encrypt_blocks length_blocks)
  have cd: "length (replace_blocks (h p) ?n
               (cbc_decrypt_blocks (decrypt_block (h k) aes_mode) iv (blocks (h p) ?n)))
             = length (h p) \<and>
           drop (16 * ?n) (replace_blocks (h p) ?n
               (cbc_decrypt_blocks (decrypt_block (h k) aes_mode) iv (blocks (h p) ?n)))
             = drop (16 * ?n) (h p)" if "length iv = 16" for iv
  proof (rule frame)
    show "\<forall>c \<in> set (cbc_decrypt_blocks (decrypt_block (h k) aes_mode) iv (blocks (h p) ?n)).
            length c = 16"
      using bl that by (rule cbc_decrypt_blocks_lengths) (rule length_decrypt_block)
    show "length (cbc_decrypt_blocks (decrypt_block (h k) aes_mode) iv (blocks (h p) ?n)) = ?n"
      by (simp add: cbc_decrypt_blocks_def length_blocks)
  qed
  have ecb_e: "uaes_ecb_encryption h (Some p) sz (Some k) aes_mode =
      Some (0, h(p := replace_blocks (h p) ?n (map (encrypt_block (h k) aes_mode) (blocks (h p) ?n))))"
    using uaes_ecb_encryption_eq [of sz aes_mode h k p] assms unfolding n by blast
  have ecb_d: "uaes_ecb_decryption h (Some p) sz (Some k) aes_mode =
      Some (0, h(p := replace_blocks (h p) ?n (map (decrypt_block (h k) aes_mode) (blocks (h p) ?n))))"
    using uaes_ecb_decryption_eq [of sz aes_mode h k p] assms unfolding n by blast
  have cbc: "uaes_cbc_encryption h (Some p) sz (Some k) (Some v) aes_mode =
      Some (0, h(p := replace_blocks (h p) ?n
         (cbc_encrypt_blocks (encrypt_block (h k) aes_mode) (take 16 (h v)) (blocks (h p) ?n))))
     \<and> uaes_cbc_decryption h (Some p) sz (Some k) (Some v) aes_mode =
      Some (0, h(p := replace_blocks (h p) ?n
         (cbc_decrypt_blocks (decrypt_block (h k) aes_mode) (take 16 (h v)) (blocks (h p) ?n))))"
    if "16 \<le> length (h v) \<and> v \<noteq> p"
    using uaes_cbc_encryption_eq [of sz aes_mode h k p v]
      uaes_cbc_decryption_eq [of sz aes_mode h k p v] assms that unfolding n by blast
  show ?thesis
  proof (intro conjI impI)
    show "(\<exists>h'. uaes_ecb_encryption h (Some p) sz (Some k) aes_mode = Some (0, h') \<and>           length (h' p) = length (h p) \<and>           drop (16 * ((sz + 15) div 16)) (h' p) = drop (16 * ((sz + 15) div 16)) (h p))"
      unfolding ecb_e using e by simp
    show "(\<exists>h'. uaes_ecb_decryption h (Some p) sz (Some k) aes_mode = Some (0, h') \<and>           length (h' p) = length (h p) \<and>           drop (16 * ((sz + 15) div 16)) (h' p) = drop (16 * ((sz + 15) div 16)) (h p))"
      unfolding ecb_d using d by simp
  next
    assume v: "16 \<le> length (h v) \<and> v \<noteq> p"
    then have iv: "length (take 16 (h v)) = 16" by simp
    show "(\<exists>h'. uaes_cbc_encryption h (Some p) sz (Some k) (Some v) aes_mode = Some (0, h') \<and>           length (h' p) = length (h p) \<and>           drop (16 * ((sz + 15) div 16)) (h' p) = drop (16 * ((sz + 15) div 16)) (h p))"
      using cbc [OF v] ce [of "take 16 (h v)"] by simp
    show "(\<exists>h'. uaes_cbc_decryption h (Some p) sz (Some k) (Some v) aes_mode = Some (0, h') \<and>           length (h' p) = length (h p) \<and>           drop (16 * ((sz + 15) div 16)) (h' p) = drop (16 * ((sz + 15) div 16)) (h p))"
      using cbc [OF v] cd [OF iv] by simp
  qed
qed

theorem uaes_multi_block_frame_witness:
  "(0::nat) < 10 \<and> (10::nat) \<le> 64 \<and> 0 < uAESRGE \<and>
   4 * Nk_of 0 \<le> length (example_store 1) \<and> 16 * ((10 + 15) div 16) \<le> length (example_store 0) \<and>
   16 \<le> length (example_store 2) \<and> (2::nat) \<noteq> 0 \<and>
   (\<exists>h'. uaes_cbc_encryption example_store (Some 0) 10 (Some 1) (Some 2) 0 = Some (0, h') \<and>
         length (h' 0) = length (example_store 0) \<and>
         drop (16 * ((10 + 15) div 16)) (h' 0) = drop (16 * ((10 + 15) div 16)) (example_store 0))"
proof -
  have a: "(0::nat) < 10" "(10::nat) \<le> 64" "0 < uAESRGE"
    by (simp_all add: uAESRGE_def)
  have b: "4 * Nk_of 0 \<le> length (example_store 1)"
    "16 * ((10 + 15) div 16) \<le> length (example_store 0)"
    by (simp_all add: example_store_def Nk_of_def uAES128_def appendix_b_key_def
          appendix_b_plaintext_def appendix_b_ciphertext_def)
  have c: "16 \<le> length (example_store 2) \<and> (2::nat) \<noteq> 0"
    by (simp add: example_store_def example_iv_def)
  show ?thesis
    using a b c uaes_multi_block_frame [OF a b, of 2] by blast
qed

subsection \<open>C1: decryption undoes encryption\<close>






subsection \<open>C8: a changed plaintext block changes every later ciphertext block\<close>

text \<open>
  Claim C8.  Take any variant, key and 16-byte IV and two plaintext buffers of the same
  length, a multiple of 16 and at most 64 bytes, that differ in block \<open>i\<close> and nowhere
  else.  Their CBC encryptions under the same key and IV both return 0, agree on every
  ciphertext block before \<open>i\<close>, and differ in block \<open>i\<close> and in every block after it.
  The two buffers are given as two stores \<open>h\<close> and \<open>h'\<close> that hold the same key and IV.
\<close>

theorem uaes_cbc_avalanche:
  assumes "aes_mode \<in> {uAES128, uAES192, uAES256}"
    and "length (h k) = 4 * Nk_of aes_mode" "h' k = h k"
    and "length (h v) = 16" "h' v = h v"
    and "length (h p) = 16 * n" "length (h' p) = 16 * n" "n \<le> 4"
    and "i < n" "get_block (h p) i \<noteq> get_block (h' p) i"
    and "\<forall>j<n. j \<noteq> i \<longrightarrow> get_block (h p) j = get_block (h' p) j"
  shows "\<exists>g g'.
           uaes_cbc_encryption h (Some p) (16 * n) (Some k) (Some v) aes_mode = Some (0, g) \<and>
           uaes_cbc_encryption h' (Some p) (16 * n) (Some k) (Some v) aes_mode = Some (0, g') \<and>
           (\<forall>j<i. get_block (g p) j = get_block (g' p) j) \<and>
           (\<forall>j. i \<le> j \<and> j < n \<longrightarrow> get_block (g p) j \<noteq> get_block (g' p) j)"
proof -
  let ?E = "encrypt_block (h k) aes_mode"
  let ?iv = "take 16 (h v)"
  let ?bs = "blocks (h p) n" and ?bs' = "blocks (h' p) n"
  let ?cs = "cbc_encrypt_blocks ?E ?iv ?bs" and ?cs' = "cbc_encrypt_blocks ?E ?iv ?bs'"
  let ?g = "h(p := replace_blocks (h p) n ?cs)" and ?g' = "h'(p := replace_blocks (h' p) n ?cs')"
  have mode: "aes_mode < uAESRGE" using assms(1) by (simp only: mode_set)
  have vp: "v \<noteq> p"
  proof
    assume "v = p"
    then have "h' p = h p" using assms(5) by simp
    then show False using assms(10) by simp
  qed
  have n: "block_offset (16 * n) = n" by (simp add: block_offset_eq)
  have sz: "0 < 16 * n" "16 * n \<le> 64" using assms(8,9) by simp_all
  have key: "4 * Nk_of aes_mode \<le> length (h k)" "4 * Nk_of aes_mode \<le> length (h' k)"
    using assms(2,3) by simp_all
  have fit: "16 * block_offset (16 * n) \<le> length (h p)"
    "16 * block_offset (16 * n) \<le> length (h' p)"
    unfolding n using assms(6,7) by simp_all
  have iv: "16 \<le> length (h v)" "16 \<le> length (h' v)" "length ?iv = 16"
    using assms(4,5) by simp_all
  have enc: "uaes_cbc_encryption h (Some p) (16 * n) (Some k) (Some v) aes_mode = Some (0, ?g)"
    using uaes_cbc_encryption_eq [of "16 * n" aes_mode h k p v] sz mode key(1) fit(1) iv(1) vp
    unfolding n by blast
  have enc': "uaes_cbc_encryption h' (Some p) (16 * n) (Some k) (Some v) aes_mode = Some (0, ?g')"
    using uaes_cbc_encryption_eq [of "16 * n" aes_mode h' k p v] sz mode key(2) fit(2) iv(2) vp
    unfolding n assms(3,5) by blast
  have len: "length ?bs = n" "length ?bs' = n" by (simp_all add: length_blocks)
  have bl: "\<forall>b \<in> set ?bs. length b = 16" "\<forall>b \<in> set ?bs'. length b = 16"
    using blocks_lengths [of n "h p"] blocks_lengths [of n "h' p"] assms(6,7) by simp_all
  have lcs: "\<forall>c \<in> set ?cs. length c = 16" "\<forall>c \<in> set ?cs'. length c = 16"
    by (simp_all add: cbc_encrypt_blocks_lengths [OF length_encrypt_block])
  have diff: "\<forall>j<n. j \<noteq> i \<longrightarrow> ?bs ! j = ?bs' ! j" "?bs ! i \<noteq> ?bs' ! i"
    using assms(9,10,11) by (simp_all add: nth_blocks)
  have lc: "length ?cs = n" "length ?cs' = n"
    by (simp_all only: length_cbc_encrypt_blocks length_blocks)
  have get: "get_block (?g p) j = ?cs ! j" "get_block (?g' p) j = ?cs' ! j" if "j < n" for j
  proof -
    have "j < length ?cs" "j < length ?cs'" using that by (simp_all only: lc)
    then have "get_block (concat ?cs @ drop (16 * n) (h p)) j = ?cs ! j"
      "get_block (concat ?cs' @ drop (16 * n) (h' p)) j = ?cs' ! j"
      using lcs by (simp_all only: get_block_concat)
    then show "get_block (?g p) j = ?cs ! j" "get_block (?g' p) j = ?cs' ! j"
      by (simp_all only: fun_upd_same replace_blocks_def)
  qed
  have before: "get_block (?g p) j = get_block (?g' p) j" if "j < i" for j
  proof -
    have j: "j < n" using that assms(9) by simp
    show ?thesis
      unfolding get [OF j] using len diff(1) that j by (rule cbc_avalanche_before)
  qed
  have after: "get_block (?g p) j \<noteq> get_block (?g' p) j" if "i \<le> j \<and> j < n" for j
  proof -
    have j: "i \<le> j" "j < n" using that by simp_all
    show ?thesis
      unfolding get [OF j(2)]
      by (rule cbc_avalanche_after [OF len diff assms(9) bl iv(3) mode j])
  qed
  show ?thesis
  proof (intro exI conjI)
    show "uaes_cbc_encryption h (Some p) (16 * n) (Some k) (Some v) aes_mode = Some (0, ?g)"
      by (rule enc)
    show "uaes_cbc_encryption h' (Some p) (16 * n) (Some k) (Some v) aes_mode = Some (0, ?g')"
      by (rule enc')
    show "\<forall>j<i. get_block (?g p) j = get_block (?g' p) j"
      using before by blast
    show "\<forall>j. i \<le> j \<and> j < n \<longrightarrow> get_block (?g p) j \<noteq> get_block (?g' p) j"
      using after by blast
  qed
qed

theorem uaes_cbc_avalanche_witness:
  "(0::nat) \<in> {uAES128, uAES192, uAES256} \<and>
   length (example_store 1) = 4 * Nk_of 0 \<and> example_store' 1 = example_store 1 \<and>
   length (example_store 2) = 16 \<and> example_store' 2 = example_store 2 \<and>
   length (example_store 0) = 16 * 2 \<and> length (example_store' 0) = 16 * 2 \<and> (2::nat) \<le> 4 \<and>
   (1::nat) < 2 \<and> get_block (example_store 0) 1 \<noteq> get_block (example_store' 0) 1 \<and>
   get_block (example_store 0) 0 = get_block (example_store' 0) 0 \<and>
   (\<exists>g g'.
      uaes_cbc_encryption example_store (Some 0) (16 * 2) (Some 1) (Some 2) 0 = Some (0, g) \<and>
      uaes_cbc_encryption example_store' (Some 0) (16 * 2) (Some 1) (Some 2) 0 = Some (0, g') \<and>
      (\<forall>j<1. get_block (g 0) j = get_block (g' 0) j) \<and>
      (\<forall>j. 1 \<le> j \<and> j < 2 \<longrightarrow> get_block (g 0) j \<noteq> get_block (g' 0) j))"
proof -
  have a: "(0::nat) \<in> {uAES128, uAES192, uAES256}"
    "length (example_store 1) = 4 * Nk_of 0" "example_store' 1 = example_store 1"
    "length (example_store 2) = 16" "example_store' 2 = example_store 2"
    "length (example_store 0) = 16 * 2" "length (example_store' 0) = 16 * 2" "(2::nat) \<le> 4"
    "(1::nat) < 2"
    by (simp_all add: example_store_def example_store'_def Nk_of_def uAES128_def
          appendix_b_key_def appendix_b_plaintext_def appendix_b_ciphertext_def example_iv_def)
  have b: "get_block (example_store 0) 1 \<noteq> get_block (example_store' 0) 1"
    by (simp add: example_store_def example_store'_def get_block_def
          appendix_b_plaintext_def appendix_b_ciphertext_def)
  have c: "\<forall>j<2. j \<noteq> 1 \<longrightarrow> get_block (example_store 0) j = get_block (example_store' 0) j"
  proof (intro allI impI)
    fix j :: nat assume "j < 2" "j \<noteq> 1"
    then have "j = 0" by simp
    then show "get_block (example_store 0) j = get_block (example_store' 0) j"
      by (simp add: example_store_def example_store'_def get_block_def
            appendix_b_plaintext_def)
  qed
  have d: "get_block (example_store 0) 0 = get_block (example_store' 0) 0"
    using c by simp
  show ?thesis
    using a b d uaes_cbc_avalanche [OF a b c] by (intro conjI)
qed

subsection \<open>C3: rejection of invalid arguments\<close>

text \<open>
  Claim C3.  A call of any of the ten entry points with a null key pointer, a null data
  pointer, for CBC a null IV pointer, size 0, a size above the bound of the entry point
  (64 for the multi-block ones, 16 for the single-block ones) or, for the multi-block
  ones, a variant tag of 3 or more returns -1 and leaves the whole store, and with it the
  data, key and IV buffers, as it was.  A call with valid arguments, whose pointers point
  to memory that holds the bytes the call accesses, returns 0; this includes a CBC call
  whose IV pointer equals the data pointer.
\<close>

theorem uaes_rejection:
  "(key = None \<or> buf = None \<or> init_vec = None \<or> sz = 0 \<or> 64 < sz \<or> 3 \<le> aes_mode \<longrightarrow>
      uaes_cbc_encryption h buf sz key init_vec aes_mode = Some (- 1, h) \<and>
      uaes_cbc_decryption h buf sz key init_vec aes_mode = Some (- 1, h)) \<and>
   (key = None \<or> buf = None \<or> sz = 0 \<or> 64 < sz \<or> 3 \<le> aes_mode \<longrightarrow>
      uaes_ecb_encryption h buf sz key aes_mode = Some (- 1, h) \<and>
      uaes_ecb_decryption h buf sz key aes_mode = Some (- 1, h)) \<and>
   (key = None \<or> buf = None \<or> sz = 0 \<or> 16 < sz \<longrightarrow>
      uaes128enc h buf key sz = Some (- 1, h) \<and>
      uaes192enc h buf key sz = Some (- 1, h) \<and>
      uaes256enc h buf key sz = Some (- 1, h) \<and>
      uaes128dec h buf key sz = Some (- 1, h) \<and>
      uaes192dec h buf key sz = Some (- 1, h) \<and>
      uaes256dec h buf key sz = Some (- 1, h)) \<and>
   (0 < vs \<and> vs \<le> 64 \<and> vm < 3 \<and> 4 * Nk_of vm \<le> length (h k) \<and>
    16 * ((vs + 15) div 16) \<le> length (h p) \<longrightarrow>
      map_option fst (uaes_ecb_encryption h (Some p) vs (Some k) vm) = Some 0 \<and>
      map_option fst (uaes_ecb_decryption h (Some p) vs (Some k) vm) = Some 0 \<and>
      (16 \<le> length (h v) \<longrightarrow>
         map_option fst (uaes_cbc_encryption h (Some p) vs (Some k) (Some v) vm) = Some 0 \<and>
         map_option fst (uaes_cbc_decryption h (Some p) vs (Some k) (Some v) vm) = Some 0)) \<and>
   (0 < ss \<and> ss \<le> 16 \<and> 16 \<le> length (h p) \<longrightarrow>
      (16 \<le> length (h k) \<longrightarrow>
         map_option fst (uaes128enc h (Some p) (Some k) ss) = Some 0 \<and>
         map_option fst (uaes128dec h (Some p) (Some k) ss) = Some 0) \<and>
      (24 \<le> length (h k) \<longrightarrow>
         map_option fst (uaes192enc h (Some p) (Some k) ss) = Some 0 \<and>
         map_option fst (uaes192dec h (Some p) (Some k) ss) = Some 0) \<and>
      (32 \<le> length (h k) \<longrightarrow>
         map_option fst (uaes256enc h (Some p) (Some k) ss) = Some 0 \<and>
         map_option fst (uaes256dec h (Some p) (Some k) ss) = Some 0))"
proof -
  have rej_cbc: "uaes_cbc_encryption h buf sz key init_vec aes_mode = Some (- 1, h) \<and>
      uaes_cbc_decryption h buf sz key init_vec aes_mode = Some (- 1, h)"
    if "key = None \<or> buf = None \<or> init_vec = None \<or> sz = 0 \<or> 64 < sz \<or> 3 \<le> aes_mode"
    using that
    by (auto simp: uaes_cbc_encryption_def uaes_cbc_decryption_def uAES_MAX_INPUT_SIZE_def
          uAESRGE_def)
  have rej_ecb: "uaes_ecb_encryption h buf sz key aes_mode = Some (- 1, h) \<and>
      uaes_ecb_decryption h buf sz key aes_mode = Some (- 1, h)"
    if "key = None \<or> buf = None \<or> sz = 0 \<or> 64 < sz \<or> 3 \<le> aes_mode"
    using that
    by (auto simp: uaes_ecb_encryption_def uaes_ecb_decryption_def uAES_MAX_INPUT_SIZE_def
          uAESRGE_def)
  have rej_single: "uaes128enc h buf key sz = Some (- 1, h) \<and>
      uaes192enc h buf key sz = Some (- 1, h) \<and>
      uaes256enc h buf key sz = Some (- 1, h) \<and>
      uaes128dec h buf key sz = Some (- 1, h) \<and>
      uaes192dec h buf key sz = Some (- 1, h) \<and>
      uaes256dec h buf key sz = Some (- 1, h)"
    if "key = None \<or> buf = None \<or> sz = 0 \<or> 16 < sz"
    using that
    by (auto simp: uaes128enc_def uaes192enc_def uaes256enc_def uaes128dec_def uaes192dec_def
          uaes256dec_def uAES_BLOCK_SIZE_def)
  have ok_multi: "map_option fst (uaes_ecb_encryption h (Some p) vs (Some k) vm) = Some 0 \<and>
      map_option fst (uaes_ecb_decryption h (Some p) vs (Some k) vm) = Some 0 \<and>
      (16 \<le> length (h v) \<longrightarrow>
         map_option fst (uaes_cbc_encryption h (Some p) vs (Some k) (Some v) vm) = Some 0 \<and>
         map_option fst (uaes_cbc_decryption h (Some p) vs (Some k) (Some v) vm) = Some 0)"
    if valid: "0 < vs \<and> vs \<le> 64 \<and> vm < 3 \<and> 4 * Nk_of vm \<le> length (h k) \<and>
               16 * ((vs + 15) div 16) \<le> length (h p)"
  proof -
    have a: "0 < vs" "vs \<le> 64" "vm < uAESRGE" "4 * Nk_of vm \<le> length (h k)"
      "16 * block_offset vs \<le> length (h p)"
      using valid by (simp_all add: uAESRGE_def block_offset_eq)
    have e: "map_option fst (uaes_ecb_encryption h (Some p) vs (Some k) vm) = Some 0"
      by (simp add: uaes_ecb_encryption_eq [OF a])
    have d: "map_option fst (uaes_ecb_decryption h (Some p) vs (Some k) vm) = Some 0"
      by (simp add: uaes_ecb_decryption_eq [OF a])
    have c: "map_option fst (uaes_cbc_encryption h (Some p) vs (Some k) (Some v) vm) = Some 0 \<and>
             map_option fst (uaes_cbc_decryption h (Some p) vs (Some k) (Some v) vm) = Some 0"
      if v: "16 \<le> length (h v)"
    proof (cases "v = p")
      case True
      obtain h' where "uaes_cbc_encryption h (Some p) vs (Some k) (Some p) vm = Some (0, h')"
        using uaes_cbc_encryption_alias [OF a] by blast
      then show ?thesis
        unfolding True by (simp add: uaes_cbc_decryption_alias [OF a])
    next
      case False
      show ?thesis
        by (simp add: uaes_cbc_encryption_eq [OF a v False] uaes_cbc_decryption_eq [OF a v False])
    qed
    show ?thesis using e d c by blast
  qed
  have ok_single:
    "(16 \<le> length (h k) \<longrightarrow>
         map_option fst (uaes128enc h (Some p) (Some k) ss) = Some 0 \<and>
         map_option fst (uaes128dec h (Some p) (Some k) ss) = Some 0) \<and>
      (24 \<le> length (h k) \<longrightarrow>
         map_option fst (uaes192enc h (Some p) (Some k) ss) = Some 0 \<and>
         map_option fst (uaes192dec h (Some p) (Some k) ss) = Some 0) \<and>
      (32 \<le> length (h k) \<longrightarrow>
         map_option fst (uaes256enc h (Some p) (Some k) ss) = Some 0 \<and>
         map_option fst (uaes256dec h (Some p) (Some k) ss) = Some 0)"
    if "0 < ss \<and> ss \<le> 16 \<and> 16 \<le> length (h p)"
    using that
    by (simp add: uaes128enc_eq uaes192enc_eq uaes256enc_eq uaes128dec_eq uaes192dec_eq
          uaes256dec_eq)
  show ?thesis
    using rej_cbc rej_ecb rej_single ok_multi ok_single by blast
qed

theorem uaes_rejection_witness:
  "uaes_cbc_encryption example_store None 20 (Some 1) (Some 2) 0 = Some (- 1, example_store) \<and>
   uaes_ecb_decryption example_store (Some 0) 65 (Some 1) 0 = Some (- 1, example_store) \<and>
   uaes_ecb_encryption example_store (Some 0) 20 (Some 1) 3 = Some (- 1, example_store) \<and>
   uaes256dec example_store (Some 0) (Some 1) 0 = Some (- 1, example_store) \<and>
   (0::nat) < 20 \<and> (20::nat) \<le> 64 \<and> (0::nat) < 3 \<and> 4 * Nk_of 0 \<le> length (example_store 1) \<and>
   16 * ((20 + 15) div 16) \<le> length (example_store 0) \<and> 16 \<le> length (example_store 2) \<and>
   map_option fst (uaes_ecb_encryption example_store (Some 0) 20 (Some 1) 0) = Some 0 \<and>
   map_option fst (uaes_cbc_decryption example_store (Some 0) 20 (Some 1) (Some 2) 0) = Some 0 \<and>
   (0::nat) < 5 \<and> (5::nat) \<le> 16 \<and>
   map_option fst (uaes128enc example_store (Some 0) (Some 1) 5) = Some 0"
proof -
  have b: "4 * Nk_of 0 \<le> length (example_store 1)"
    "16 * ((20 + 15) div 16) \<le> length (example_store 0)" "16 \<le> length (example_store 2)"
    "16 \<le> length (example_store 0)" "16 \<le> length (example_store 1)"
    by (simp_all add: example_store_def Nk_of_def uAES128_def appendix_b_key_def
          appendix_b_plaintext_def appendix_b_ciphertext_def example_iv_def)
  show ?thesis
    using b uaes_rejection [of "Some 1" None "Some 2" 20 0 example_store 20 0 1 0 2 5]
      uaes_rejection [of "Some 1" "Some 0" "Some 2" 65 0 example_store 20 0 1 0 2 5]
      uaes_rejection [of "Some 1" "Some 0" "Some 2" 20 3 example_store 20 0 1 0 2 5]
      uaes_rejection [of "Some 1" "Some 0" "Some 2" 0 0 example_store 20 0 1 0 2 5]
    by simp
qed

end
